theory Spec2Isabelle
  imports Main
begin

section \<open>The intrusive doubly-linked list: nodes, rings and lists\<close>

subsection \<open>Data model\<close>

text \<open>
  A node (\<^verbatim>\<open>details::list_element_base\<close>) is two pointers, \<^verbatim>\<open>prev\<close> and \<^verbatim>\<open>next\<close>, to other
  nodes. Link identity is the address of the node, so the model is an explicit store: a
  node is its address, and the store maps every address to the values of its two fields.
  The fields are called \<open>prev_p\<close> and \<open>next_p\<close> (\<open>next\<close> is a keyword of the proof
  language). The store also records which addresses hold an object whose lifetime has begun
  and has not ended (\<open>alive\<close>): constructors add the address, the destructor removes it.
  The memory of a destroyed object keeps the field values it had.
\<close>

type_synonym addr = nat

record heap =
  prev_p :: "addr \<Rightarrow> addr"
  next_p :: "addr \<Rightarrow> addr"
  alive :: "addr set"

subsection \<open>\<^verbatim>\<open>list_element_base\<close>\<close>

text \<open>\<^verbatim>\<open>list_element_base() noexcept : prev(this), next(this) {}\<close>\<close>

definition default_ctor :: "heap \<Rightarrow> addr \<Rightarrow> heap" where
  "default_ctor h this =
     h\<lparr>prev_p := (prev_p h)(this := this),
       next_p := (next_p h)(this := this),
       alive := insert this (alive h)\<rparr>"

text \<open>\<^verbatim>\<open>bool is_linked() const { return prev != this; }\<close>\<close>

definition is_linked :: "heap \<Rightarrow> addr \<Rightarrow> bool" where
  "is_linked h this = (prev_p h this \<noteq> this)"

text \<open>\<^verbatim>\<open>static void link(a, b) { a->next = b; b->prev = a; }\<close>\<close>

definition link :: "heap \<Rightarrow> addr \<Rightarrow> addr \<Rightarrow> heap" where
  "link h a b =
     (let h1 = h\<lparr>next_p := (next_p h)(a := b)\<rparr>
      in h1\<lparr>prev_p := (prev_p h1)(b := a)\<rparr>)"

text \<open>\<^verbatim>\<open>void unlink() { link(prev, next); prev = next = this; }\<close>\<close>

definition unlink :: "heap \<Rightarrow> addr \<Rightarrow> heap" where
  "unlink h this =
     (let h1 = link h (prev_p h this) (next_p h this);
          h2 = h1\<lparr>next_p := (next_p h1)(this := this)\<rparr>
      in h2\<lparr>prev_p := (prev_p h2)(this := next_p h2 this)\<rparr>)"

text \<open>
  Copy assignment: \<^verbatim>\<open>if (this == &other) return *this; unlink(); return *this;\<close>
\<close>

definition copy_assign :: "heap \<Rightarrow> addr \<Rightarrow> addr \<Rightarrow> heap" where
  "copy_assign h this other = (if this = other then h else unlink h this)"

text \<open>
  Move assignment. \<^verbatim>\<open>std::exchange(other.prev, &other)\<close> stores \<^verbatim>\<open>&other\<close> into
  \<^verbatim>\<open>other.prev\<close> and returns the old value, which is then assigned to \<^verbatim>\<open>this->prev\<close>;
  likewise for \<^verbatim>\<open>next\<close>. Then \<^verbatim>\<open>prev->next = this; next->prev = this;\<close>.
\<close>

definition move_assign :: "heap \<Rightarrow> addr \<Rightarrow> addr \<Rightarrow> heap" where
  "move_assign h this other =
     (if this = other then h
      else
        let h1 = unlink h this in
        if is_linked h1 other then
          let old_prev = prev_p h1 other;
              h2 = h1\<lparr>prev_p := (prev_p h1)(other := other)\<rparr>;
              h3 = h2\<lparr>prev_p := (prev_p h2)(this := old_prev)\<rparr>;
              old_next = next_p h3 other;
              h4 = h3\<lparr>next_p := (next_p h3)(other := other)\<rparr>;
              h5 = h4\<lparr>next_p := (next_p h4)(this := old_next)\<rparr>;
              h6 = h5\<lparr>next_p := (next_p h5)(prev_p h5 this := this)\<rparr>
          in h6\<lparr>prev_p := (prev_p h6)(next_p h6 this := this)\<rparr>
        else h1)"

text \<open>
  Move constructor: delegates to the default constructor, then \<^verbatim>\<open>*this = std::move(other)\<close>.
\<close>

definition move_ctor :: "heap \<Rightarrow> addr \<Rightarrow> addr \<Rightarrow> heap" where
  "move_ctor h this other = move_assign (default_ctor h this) this other"

text \<open>Copy constructor: delegates to the default constructor and ignores its argument.\<close>

definition copy_ctor :: "heap \<Rightarrow> addr \<Rightarrow> addr \<Rightarrow> heap" where
  "copy_ctor h this other = default_ctor h this"

text \<open>
  Destructor: \<^verbatim>\<open>list_element_base::~list_element_base() = default;\<close>. The two fields are
  raw pointers, so the defaulted destructor writes nothing; the object's lifetime ends.
\<close>

definition dtor :: "heap \<Rightarrow> addr \<Rightarrow> heap" where
  "dtor h this = h\<lparr>alive := alive h - {this}\<rparr>"

subsection \<open>Iterators\<close>

text \<open>
  A \<^verbatim>\<open>basic_iterator\<close> wraps one pointer \<^verbatim>\<open>current\<close>; it is modelled as that address.
  \<^verbatim>\<open>operator++\<close> follows \<^verbatim>\<open>next\<close>, \<^verbatim>\<open>operator--\<close> follows \<^verbatim>\<open>prev\<close>, equality compares
  the pointers.
\<close>

definition incr :: "heap \<Rightarrow> addr \<Rightarrow> addr" where
  "incr h current = next_p h current"

definition decr :: "heap \<Rightarrow> addr \<Rightarrow> addr" where
  "decr h current = prev_p h current"

text \<open>
  \<^verbatim>\<open>std::distance(first, last)\<close> on bidirectional iterators: the loop
  \<^verbatim>\<open>while (first != last) { ++first; ++n; }\<close>. It need not terminate on an arbitrary store,
  so not returning is the value \<open>None\<close>.
\<close>

partial_function (option) distance :: "heap \<Rightarrow> addr \<Rightarrow> addr \<Rightarrow> nat \<Rightarrow> nat option" where
  "distance h first lst n =
     (if first = lst then Some n else distance h (incr h first) lst (Suc n))"

text \<open>
  The client's iteration \<^verbatim>\<open>for (it = first; it != last; ++it) visit(*it)\<close>, returning the
  nodes visited, in order.
\<close>

partial_function (option) visit :: "heap \<Rightarrow> addr \<Rightarrow> addr \<Rightarrow> addr list \<Rightarrow> addr list option" where
  "visit h first lst acc =
     (if first = lst then Some acc else visit h (incr h first) lst (acc @ [first]))"

subsection \<open>\<^verbatim>\<open>list\<close>\<close>

text \<open>
  A list object owns one node, \<^verbatim>\<open>dummy\<close>; the list is identified with the address of its
  dummy. The defaulted constructor and destructor of \<^verbatim>\<open>list\<close> construct and destroy that
  member.
\<close>

definition list_ctor :: "heap \<Rightarrow> addr \<Rightarrow> heap" where
  "list_ctor h dummy = default_ctor h dummy"

definition list_dtor :: "heap \<Rightarrow> addr \<Rightarrow> heap" where
  "list_dtor h dummy = dtor h dummy"

definition empty_l :: "heap \<Rightarrow> addr \<Rightarrow> bool" where
  "empty_l h dummy = (\<not> is_linked h dummy)"

definition begin_l :: "heap \<Rightarrow> addr \<Rightarrow> addr" where
  "begin_l h dummy = next_p h dummy"

definition end_l :: "heap \<Rightarrow> addr \<Rightarrow> addr" where
  "end_l h dummy = dummy"

definition size_l :: "heap \<Rightarrow> addr \<Rightarrow> nat option" where
  "size_l h dummy = distance h (begin_l h dummy) (end_l h dummy) 0"

definition contents :: "heap \<Rightarrow> addr \<Rightarrow> addr list option" where
  "contents h dummy = visit h (begin_l h dummy) (end_l h dummy) []"

definition front :: "heap \<Rightarrow> addr \<Rightarrow> addr" where
  "front h dummy = begin_l h dummy"

definition back_l :: "heap \<Rightarrow> addr \<Rightarrow> addr" where
  "back_l h dummy = decr h (end_l h dummy)"

text \<open>
  \<^verbatim>\<open>insert(pos, value)\<close>: returns the new store and the iterator.
\<close>

definition insert_l :: "heap \<Rightarrow> addr \<Rightarrow> addr \<Rightarrow> heap \<times> addr" where
  "insert_l h pos val =
     (if pos = val then (h, pos)
      else
        let h1 = unlink h val;
            h2 = link h1 (prev_p h1 pos) val;
            h3 = link h2 val pos
        in (h3, val))"

definition push_front :: "heap \<Rightarrow> addr \<Rightarrow> addr \<Rightarrow> heap" where
  "push_front h dummy val = fst (insert_l h (begin_l h dummy) val)"

definition push_back :: "heap \<Rightarrow> addr \<Rightarrow> addr \<Rightarrow> heap" where
  "push_back h dummy val = fst (insert_l h (end_l h dummy) val)"

definition erase :: "heap \<Rightarrow> addr \<Rightarrow> heap \<times> addr" where
  "erase h pos = (let nxt = next_p h pos; h1 = unlink h pos in (h1, nxt))"

definition pop_front :: "heap \<Rightarrow> addr \<Rightarrow> heap" where
  "pop_front h dummy = fst (erase h (begin_l h dummy))"

definition pop_back :: "heap \<Rightarrow> addr \<Rightarrow> heap" where
  "pop_back h dummy = fst (erase h (decr h (end_l h dummy)))"

definition clear :: "heap \<Rightarrow> addr \<Rightarrow> heap" where
  "clear h dummy = unlink h dummy"

text \<open>
  \<^verbatim>\<open>splice(pos, other, first, last_exclusive)\<close>; the argument \<^verbatim>\<open>other\<close> is unused.
  The local \<^verbatim>\<open>last\<close> of the source is \<open>lst\<close> here (\<open>last\<close> is a list function of HOL).
\<close>

definition splice_l :: "heap \<Rightarrow> addr \<Rightarrow> addr \<Rightarrow> addr \<Rightarrow> heap" where
  "splice_l h pos first last_exclusive =
     (if first = last_exclusive then h
      else
        let lst = decr h last_exclusive;
            before_pos = prev_p h pos;
            before_first = prev_p h first;
            after_last = next_p h lst;
            h1 = link h before_pos first;
            h2 = link h1 lst pos
        in link h2 before_first after_last)"

subsection \<open>Rings and lists as predicates on the store\<close>

text \<open>
  \<open>chain h xs\<close>: every two consecutive nodes of \<open>xs\<close> are linked forward and back.
  \<open>ring h cs\<close>: the distinct nodes \<open>cs\<close> form a ring, in this cyclic order.
  \<open>is_list h d xs\<close>: the list with dummy \<open>d\<close> holds exactly the members \<open>xs\<close>, in order.
\<close>

fun chain :: "heap \<Rightarrow> addr list \<Rightarrow> bool" where
  "chain h [] = True"
| "chain h [x] = True"
| "chain h (x # y # zs) = (next_p h x = y \<and> prev_p h y = x \<and> chain h (y # zs))"

definition ring :: "heap \<Rightarrow> addr list \<Rightarrow> bool" where
  "ring h cs = (cs \<noteq> [] \<and> distinct cs \<and> chain h (cs @ [hd cs]))"

definition is_list :: "heap \<Rightarrow> addr \<Rightarrow> addr list \<Rightarrow> bool" where
  "is_list h d xs = ring h (d # xs)"

text \<open>
  \<open>ring_inv h\<close>: the link structure of the store is consistent. The objects alive are
  finitely many; the two pointers of an object alive lead to objects alive; and forward and
  back are mutual inverses at every object alive.
\<close>

definition ring_inv :: "heap \<Rightarrow> bool" where
  "ring_inv h =
     (finite (alive h) \<and>
      (\<forall>n \<in> alive h. next_p h n \<in> alive h \<and> prev_p h n \<in> alive h \<and>
         prev_p h (next_p h n) = n \<and> next_p h (prev_p h n) = n))"

text \<open>
  \<open>member_of h d n\<close>: iterating the list with dummy \<open>d\<close> returns and visits \<open>n\<close>.
  \<open>struct_inv D h\<close>, for the set \<open>D\<close> of the dummies of the lists that exist: the store is
  consistent, and every object alive that is neither a dummy nor a member of one of the
  lists is self-looped.
\<close>

definition member_of :: "heap \<Rightarrow> addr \<Rightarrow> addr \<Rightarrow> bool" where
  "member_of h d n = (case contents h d of Some xs \<Rightarrow> n \<in> set xs | None \<Rightarrow> False)"

definition struct_inv :: "addr set \<Rightarrow> heap \<Rightarrow> bool" where
  "struct_inv D h =
     (ring_inv h \<and>
      (\<forall>n \<in> alive h - D. (\<forall>d \<in> D. \<not> member_of h d n) \<longrightarrow> prev_p h n = n \<and> next_p h n = n))"

subsection \<open>An example store\<close>

text \<open>
  Nodes 0 to 7 are alive. Node 0 is the dummy of a list holding the members 1, 2, 3 in this
  order; node 4 is the dummy of an empty list; node 5 is an unlinked node; node 6 is the
  dummy of a list holding the single member 7. Addresses from 8 on hold no object.
\<close>

definition ex_heap :: heap where
  "ex_heap =
     \<lparr>prev_p = (\<lambda>x. x)(0 := 3, 1 := 0, 2 := 1, 3 := 2, 6 := 7, 7 := 6),
      next_p = (\<lambda>x. x)(0 := 1, 1 := 2, 2 := 3, 3 := 0, 6 := 7, 7 := 6),
      alive = {0, 1, 2, 3, 4, 5, 6, 7}\<rparr>"

text \<open>
  The example store is the one the operations build, from a store with no object, by
  constructing the three lists and the five nodes and calling \<open>push_back\<close> four times
  (\<open>ex_heap_built\<close> below).
\<close>

definition fresh_store :: heap where
  "fresh_store = \<lparr>prev_p = (\<lambda>x. x), next_p = (\<lambda>x. x), alive = {}\<rparr>"

definition build_ex :: heap where
  "build_ex =
     (let h = list_ctor fresh_store 0;
          h = default_ctor h 1; h = default_ctor h 2; h = default_ctor h 3;
          h = push_back h 0 1; h = push_back h 0 2; h = push_back h 0 3;
          h = list_ctor h 4; h = default_ctor h 5;
          h = list_ctor h 6; h = default_ctor h 7
      in push_back h 6 7)"

section \<open>Basic facts\<close>

subsection \<open>The fields after \<open>link\<close> and \<open>unlink\<close>\<close>

lemma link_next: "next_p (link h a b) = (next_p h)(a := b)"
  by (simp add: link_def)
lemma link_prev: "prev_p (link h a b) = (prev_p h)(b := a)"
  by (simp add: link_def)
lemma link_alive: "alive (link h a b) = alive h"
  by (simp add: link_def)

lemma unlink_next: "next_p (unlink h p) = (next_p h)(prev_p h p := next_p h p, p := p)"
  by (simp add: unlink_def link_def Let_def)
lemma unlink_prev: "prev_p (unlink h p) = (prev_p h)(next_p h p := prev_p h p, p := p)"
  by (simp add: unlink_def link_def Let_def)
lemma unlink_alive: "alive (unlink h p) = alive h"
  by (simp add: unlink_def link_def Let_def)

lemma unlink_self_loop: "prev_p h p = p \<Longrightarrow> next_p h p = p \<Longrightarrow> unlink h p = h"
  by (simp add: unlink_def link_def Let_def fun_upd_idem)

subsection \<open>Chains and rings\<close>

lemma chain_append:
  "chain h (xs @ ys) =
     (chain h xs \<and> chain h ys \<and>
      (xs \<noteq> [] \<and> ys \<noteq> [] \<longrightarrow> next_p h (last xs) = hd ys \<and> prev_p h (hd ys) = last xs))"
proof (induction h xs rule: chain.induct)
  case (1 h) show ?case by simp
next
  case (2 h x) show ?case by (cases ys) auto
next
  case (3 h x y zs) then show ?case by auto
qed

lemma chain_frame:
  "chain h xs \<Longrightarrow> (\<forall>x \<in> set (butlast xs). next_p h' x = next_p h x)
     \<Longrightarrow> (\<forall>x \<in> set (tl xs). prev_p h' x = prev_p h x) \<Longrightarrow> chain h' xs"
  by (induction h xs rule: chain.induct) auto

lemma ring_rotate:
  assumes "ring h (xs @ ys)" "ys \<noteq> []"
  shows "ring h (ys @ xs)"
proof (cases "xs = []")
  case True with assms show ?thesis by simp
next
  case False
  with assms show ?thesis
    by (auto simp: ring_def chain_append hd_append)
qed

lemma ring_frame:
  assumes "ring h cs"
    and "\<forall>x \<in> set cs. next_p h' x = next_p h x \<and> prev_p h' x = prev_p h x"
  shows "ring h' cs"
proof -
  from assms(1) have ne: "cs \<noteq> []" and d: "distinct cs" and c: "chain h (cs @ [hd cs])"
    by (auto simp: ring_def)
  have "set (butlast (cs @ [hd cs])) \<subseteq> set cs" by (simp add: butlast_append)
  moreover have "set (tl (cs @ [hd cs])) \<subseteq> set cs" using ne by (cases cs) auto
  ultimately have "chain h' (cs @ [hd cs])"
    using assms(2) by (intro chain_frame[OF c]) blast+
  with ne d show ?thesis by (simp add: ring_def)
qed

lemma ring_hd: "ring h (x # xs) \<Longrightarrow> next_p h x = hd (xs @ [x]) \<and> prev_p h x = last (x # xs)"
  unfolding ring_def using chain_append[of h "x # xs" "[x]"] by (cases xs) auto

lemma ring_closed:
  assumes "ring h cs" "x \<in> set cs"
  shows "next_p h x \<in> set cs \<and> prev_p h x \<in> set cs"
proof -
  from assms(2) obtain as bs where cs: "cs = as @ x # bs" by (auto simp: in_set_conv_decomp)
  with assms(1) have "ring h (x # bs @ as)" using ring_rotate[of h as "x # bs"] by simp
  from ring_hd[OF this] have "next_p h x = hd (bs @ as @ [x])" "prev_p h x = last (x # bs @ as)"
    by simp_all
  moreover have "hd (bs @ as @ [x]) \<in> set (bs @ as @ [x])" by (rule hd_in_set) simp
  moreover have "last (x # bs @ as) \<in> set (x # bs @ as)" by (rule last_in_set) simp
  ultimately show ?thesis unfolding cs by auto
qed

lemma distinct_last_butlast: "distinct xs \<Longrightarrow> xs \<noteq> [] \<Longrightarrow> last xs \<notin> set (butlast xs)"
  by (induction xs rule: rev_induct) auto

lemma distinct_hd_tl: "distinct xs \<Longrightarrow> xs \<noteq> [] \<Longrightarrow> hd xs \<notin> set (tl xs)"
  by (cases xs) auto

subsection \<open>Iteration over a list\<close>

lemma visit_chain:
  "chain h (xs @ [d]) \<Longrightarrow> d \<notin> set xs \<Longrightarrow> visit h (hd (xs @ [d])) d acc = Some (acc @ xs)"
proof (induction xs arbitrary: acc)
  case Nil show ?case by (simp add: visit.simps)
next
  case (Cons x xs)
  then show ?case 
    by (subst visit.simps) (cases xs; auto simp: incr_def)
qed

lemma distance_chain:
  "chain h (xs @ [d]) \<Longrightarrow> d \<notin> set xs \<Longrightarrow> distance h (hd (xs @ [d])) d n = Some (n + length xs)"
proof (induction xs arbitrary: n)
  case Nil show ?case by (simp add: distance.simps)
next
  case (Cons x xs)
  then show ?case 
    by (subst distance.simps) (cases xs; auto simp: incr_def)
qed

lemma is_list_contents: "is_list h d xs \<Longrightarrow> contents h d = Some xs"
  unfolding is_list_def ring_def contents_def begin_l_def end_l_def
  using visit_chain[of h xs d "[]"] by (cases xs) auto

lemma is_list_size: "is_list h d xs \<Longrightarrow> size_l h d = Some (length xs)"
  unfolding is_list_def ring_def size_l_def begin_l_def end_l_def
  using distance_chain[of h xs d 0] by (cases xs) auto

subsection \<open>\<open>unlink\<close> on rings\<close>

lemma unlink_ring:
  assumes r: "ring h (v # vs)"
  shows "ring (unlink h v) [v]" and "vs \<noteq> [] \<Longrightarrow> ring (unlink h v) vs"
proof -
  show "ring (unlink h v) [v]" by (simp add: ring_def unlink_next unlink_prev)
  assume ne: "vs \<noteq> []"
  from ring_hd[OF r] ne have nv: "next_p h v = hd vs" and pv: "prev_p h v = last vs" by auto
  from r have d: "distinct (v # vs)" and c: "chain h (v # vs @ [v])" by (auto simp: ring_def)
  from c have cvs: "chain h vs" using chain_append[of h "[v]" "vs @ [v]"] chain_append[of h vs "[v]"] by simp
  have "chain (unlink h v) vs"
    using cvs d ne distinct_last_butlast[of vs] distinct_hd_tl[of vs]
    by (intro chain_frame[OF cvs]) (auto simp: unlink_next unlink_prev nv pv dest: in_set_butlastD list.set_sel(2))
  moreover have "next_p (unlink h v) (last vs) = hd vs" "prev_p (unlink h v) (hd vs) = last vs"
    using d ne by (auto simp: unlink_next unlink_prev nv pv)
  ultimately show "ring (unlink h v) vs" using d ne by (simp add: ring_def chain_append)
qed

lemma unlink_other_ring:
  assumes "ring h (v # vs)" "ring h cs" "set cs \<inter> set (v # vs) = {}"
  shows "ring (unlink h v) cs"
proof -
  from ring_closed[OF assms(1), of v] have "next_p h v \<in> set (v # vs)" "prev_p h v \<in> set (v # vs)" by auto
  with assms(3) show ?thesis
    by (intro ring_frame[OF assms(2)]) (auto simp: unlink_next unlink_prev)
qed

subsection \<open>Unlinking a member, linking a node before a position\<close>

lemma is_list_rotate:
  "is_list h d (as @ x # bs) \<longleftrightarrow> ring h (x # bs @ d # as)"
  unfolding is_list_def
  using ring_rotate[of h "d # as" "x # bs"] ring_rotate[of h "x # bs" "d # as"] by auto

lemma unlink_member:
  assumes "is_list h d (as @ x # bs)"
  shows "is_list (unlink h x) d (as @ bs)" and "ring (unlink h x) [x]"
proof -
  from assms have r: "ring h (x # bs @ d # as)" by (simp add: is_list_rotate)
  from unlink_ring(2)[OF r] have "ring (unlink h x) (bs @ d # as)" by simp
  then show "is_list (unlink h x) d (as @ bs)"
    unfolding is_list_def using ring_rotate[of "unlink h x" bs "d # as"] by simp
  from unlink_ring(1)[OF r] show "ring (unlink h x) [x]" .
qed

lemma link_before_ring:
  assumes r: "ring h (pos # ps)" and v: "ring h [v]" and nin: "v \<notin> set (pos # ps)"
  shows "ring (link (link h (prev_p h pos) v) v pos) (pos # ps @ [v])"
proof -
  let ?h = "link (link h (prev_p h pos) v) v pos"
  let ?bp = "last (pos # ps)"
  from ring_hd[OF r] have pp: "prev_p h pos = ?bp" by simp
  from r have d: "distinct (pos # ps)" and c: "chain h (pos # ps @ [pos])" by (auto simp: ring_def)
  from c have c1: "chain h (pos # ps)" using chain_append[of h "pos # ps" "[pos]"] by simp
  have nx: "next_p ?h = (next_p h)(?bp := v, v := pos)"
    and pv: "prev_p ?h = (prev_p h)(v := ?bp, pos := v)"
    by (simp_all add: link_next link_prev pp)
  have bpin: "?bp \<in> set (pos # ps)" by (rule last_in_set) simp
  have "chain ?h (pos # ps)"
  proof (rule chain_frame[OF c1]; intro ballI)
    fix x assume "x \<in> set (butlast (pos # ps))"
    then have "x \<noteq> ?bp" "x \<in> set (pos # ps)" 
      using distinct_last_butlast[OF d] in_set_butlastD[of x "pos # ps"] by blast+
    with nin show "next_p ?h x = next_p h x" by (auto simp: nx)
  next
    fix x assume "x \<in> set (tl (pos # ps))"
    with d nin show "prev_p ?h x = prev_p h x" by (auto simp: pv)
  qed
  moreover have "next_p ?h ?bp = v" "prev_p ?h v = ?bp" "next_p ?h v = pos" "prev_p ?h pos = v"
    using nin bpin by (auto simp: nx pv)
  ultimately have "chain ?h ((pos # ps) @ [v] @ [pos])"
    unfolding chain_append[of ?h "pos # ps"] chain_append[of ?h "[v]"] by simp
  with d nin show ?thesis by (simp add: ring_def)
qed

lemma link_before_frame:
  assumes r: "ring h R" and pos: "pos \<in> set R" and c: "ring h cs"
    and dis: "set cs \<inter> insert v (set R) = {}"
  shows "ring (link (link h (prev_p h pos) v) v pos) cs"
proof -
  from ring_closed[OF r pos] have "prev_p h pos \<in> set R" by simp
  with dis pos show ?thesis
    by (intro ring_frame[OF c]) (auto simp: link_next link_prev)
qed

lemma link_before_list:
  assumes l: "is_list h d (us @ ws)" and v: "ring h [v]" and nin: "v \<notin> set (d # us @ ws)"
  shows "is_list (link (link h (prev_p h (hd (ws @ [d]))) v) v (hd (ws @ [d]))) d (us @ v # ws)"
proof (cases ws)
  case Nil
  with l have "ring h (d # us)" by (simp add: is_list_def)
  from link_before_ring[OF this v] nin Nil show ?thesis by (simp add: is_list_def)
next
  case (Cons w ws')
  with l have "ring h (w # ws' @ d # us)" by (simp add: is_list_rotate)
  from link_before_ring[OF this v] nin Cons
  have "ring (link (link h (prev_p h w) v) v w) (w # ws' @ d # us @ [v])" by simp
  then have "ring (link (link h (prev_p h w) v) v w) ((d # us @ [v]) @ (w # ws'))"
    using ring_rotate[of _ "w # ws'" "d # us @ [v]"] by simp
  with Cons show ?thesis by (simp add: is_list_def)
qed

lemma hd_pos_in_list: "hd (ws @ [d]) \<in> set (d # us @ ws)"
  by (cases ws) auto

lemma insert_l_unfold:
  "pos \<noteq> v \<Longrightarrow>
     insert_l h pos v = (link (link (unlink h v) (prev_p (unlink h v) pos) v) v pos, v)"
  by (simp add: insert_l_def Let_def)

lemma insert_from_ring:
  assumes l: "is_list h d (us @ ws)" and r: "ring h (v # vs)"
    and dis: "set (v # vs) \<inter> set (d # us @ ws) = {}"
  shows "is_list (fst (insert_l h (hd (ws @ [d])) v)) d (us @ v # ws)"
    and "snd (insert_l h (hd (ws @ [d])) v) = v"
    and "vs \<noteq> [] \<Longrightarrow> ring (fst (insert_l h (hd (ws @ [d])) v)) vs"
    and "ring h cs \<Longrightarrow> set cs \<inter> (set (v # vs) \<union> set (d # us @ ws)) = {}
           \<Longrightarrow> ring (fst (insert_l h (hd (ws @ [d])) v)) cs"
proof -
  let ?pos = "hd (ws @ [d])"
  let ?h1 = "unlink h v"
  have pin: "?pos \<in> set (d # us @ ws)" by (rule hd_pos_in_list)
  with dis have ne: "?pos \<noteq> v" by auto
  have l1: "is_list ?h1 d (us @ ws)"
    unfolding is_list_def using l dis by (intro unlink_other_ring[OF r]) (auto simp: is_list_def)
  have v1: "ring ?h1 [v]" by (rule unlink_ring(1)[OF r])
  have nin: "v \<notin> set (d # us @ ws)" using dis by auto
  from link_before_list[OF l1 v1 nin] ne
  show "is_list (fst (insert_l h ?pos v)) d (us @ v # ws)" by (simp add: insert_l_unfold)
  from ne show "snd (insert_l h ?pos v) = v" by (simp add: insert_l_unfold)
  {
    assume "vs \<noteq> []"
    from unlink_ring(2)[OF r this] have "ring ?h1 vs" .
    from link_before_frame[OF l1[unfolded is_list_def] pin this, of v] r dis ne
    show "ring (fst (insert_l h ?pos v)) vs" by (auto simp: insert_l_unfold ring_def)
  }
  {
    assume c: "ring h cs" and d2: "set cs \<inter> (set (v # vs) \<union> set (d # us @ ws)) = {}"
    then have "ring ?h1 cs" by (intro unlink_other_ring[OF r]) auto
    from link_before_frame[OF l1[unfolded is_list_def] pin this, of v] d2 ne
    show "ring (fst (insert_l h ?pos v)) cs" by (auto simp: insert_l_unfold)
  }
qed

lemma insert_within_list:
  assumes l: "is_list h d (as @ v # bs)" and split: "as @ bs = us @ ws"
  shows "is_list (fst (insert_l h (hd (ws @ [d])) v)) d (us @ v # ws)"
    and "snd (insert_l h (hd (ws @ [d])) v) = v"
proof -
  let ?pos = "hd (ws @ [d])"
  let ?h1 = "unlink h v"
  from l have dv: "v \<notin> set (d # as @ bs)" by (auto simp: is_list_def ring_def)
  then have nin: "v \<notin> set (d # us @ ws)" using split by (metis append_Cons)
  have "?pos \<in> set (d # us @ ws)" by (rule hd_pos_in_list)
  with nin have ne: "?pos \<noteq> v" by metis
  from unlink_member[OF l] split have l1: "is_list ?h1 d (us @ ws)" and v1: "ring ?h1 [v]" by simp_all
  from link_before_list[OF l1 v1 nin] ne
  show "is_list (fst (insert_l h ?pos v)) d (us @ v # ws)" by (simp add: insert_l_unfold)
  from ne show "snd (insert_l h ?pos v) = v" by (simp add: insert_l_unfold)
qed

lemma unlink_frame_fields:
  "n \<noteq> x \<Longrightarrow> n \<noteq> prev_p h x \<Longrightarrow> n \<noteq> next_p h x \<Longrightarrow>
     prev_p (unlink h x) n = prev_p h n \<and> next_p (unlink h x) n = next_p h n"
  by (simp add: unlink_next unlink_prev)

lemma ring_inverse:
  assumes "ring h cs" "x \<in> set cs"
  shows "next_p h (prev_p h x) = x" and "prev_p h (next_p h x) = x"
proof -
  from assms(2) obtain as bs where cs: "cs = as @ x # bs" by (auto simp: in_set_conv_decomp)
  with assms(1) have r: "ring h (x # bs @ as)" using ring_rotate[of h as "x # bs"] by simp
  then have c: "chain h (x # (bs @ as) @ [x])" by (simp add: ring_def)
  from c show "next_p h (prev_p h x) = x"
    using chain_append[of h "x # bs @ as" "[x]"] by simp
  from c show "prev_p h (next_p h x) = x" by (cases "bs @ as") auto
qed

lemma ring_is_linked: "ring h (x # xs) \<Longrightarrow> is_linked h x \<longleftrightarrow> xs \<noteq> []"
  using ring_hd[of h x xs] by (auto simp: is_linked_def ring_def)

subsection \<open>Move assignment on rings\<close>

lemma move_assign_fields:
  assumes "this \<noteq> other" and "is_linked (unlink h this) other"
    and "prev_p (unlink h this) other \<noteq> this"
  shows "next_p (move_assign h this other) =
           (next_p (unlink h this))(other := other, this := next_p (unlink h this) other,
              prev_p (unlink h this) other := this)"
    and "prev_p (move_assign h this other) =
           (prev_p (unlink h this))(other := other, this := prev_p (unlink h this) other,
              next_p (unlink h this) other := this)"
    and "alive (move_assign h this other) = alive h"
  using assms by (simp_all add: move_assign_def Let_def unlink_alive)

lemma move_assign_unlinked:
  "this \<noteq> other \<Longrightarrow> \<not> is_linked (unlink h this) other \<Longrightarrow>
     move_assign h this other = unlink h this"
  by (simp add: move_assign_def Let_def)

lemma take_position:
  assumes t: "ring (unlink h this) [this]" and r: "ring (unlink h this) (other # rs)"
    and nin: "this \<notin> set (other # rs)"
  shows "ring (move_assign h this other) (this # rs)"
    and "ring (move_assign h this other) [other]"
proof -
  let ?h1 = "unlink h this"
  let ?h = "move_assign h this other"
  from nin have ne: "this \<noteq> other" by auto
  have "ring ?h (this # rs) \<and> ring ?h [other]"
  proof (cases "rs = []")
    case True
    with r have "\<not> is_linked ?h1 other" by (simp add: ring_def is_linked_def)
    with ne have "?h = ?h1" by (rule move_assign_unlinked)
    with True t r show ?thesis by simp
  next
    case False
    from ring_hd[OF r] False have no: "next_p ?h1 other = hd rs" and po: "prev_p ?h1 other = last rs"
      by auto
    from r have d: "distinct (other # rs)" and c: "chain ?h1 (other # rs @ [other])"
      by (auto simp: ring_def)
    from c have crs: "chain ?h1 rs"
      using chain_append[of ?h1 "[other]" "rs @ [other]"] chain_append[of ?h1 rs "[other]"] by simp
    have lin: "last rs \<in> set rs" and hin: "hd rs \<in> set rs" using False by auto
    from lin d have "last rs \<noteq> other" by auto
    then have il: "is_linked ?h1 other" by (simp add: is_linked_def po)
    from lin nin have pt: "prev_p ?h1 other \<noteq> this" by (auto simp: po)
    note f = move_assign_fields[OF ne il pt, unfolded no po]
    have "chain ?h rs"
    proof (rule chain_frame[OF crs]; intro ballI)
      fix x assume "x \<in> set (butlast rs)"
      then have "x \<noteq> last rs" "x \<in> set rs"
        using distinct_last_butlast[of rs] d False in_set_butlastD[of x rs] by auto
      with nin d show "next_p ?h x = next_p ?h1 x" by (auto simp: f)
    next
      fix x assume "x \<in> set (tl rs)"
      then have "x \<noteq> hd rs" "x \<in> set rs"
        using distinct_hd_tl[of rs] d False list.set_sel(2)[of rs x] by auto
      with nin d show "prev_p ?h x = prev_p ?h1 x" by (auto simp: f)
    qed
    moreover have "next_p ?h this = hd rs" "prev_p ?h (hd rs) = this"
      "next_p ?h (last rs) = this" "prev_p ?h this = last rs"
      "next_p ?h other = other" "prev_p ?h other = other"
      using nin d lin hin by (auto simp: f)
    ultimately have "chain ?h ([this] @ rs @ [this])" "chain ?h [other, other]"
      unfolding chain_append[of ?h "[this]"] chain_append[of ?h rs] using False by simp_all
    with d nin show ?thesis by (simp add: ring_def)
  qed
  then show "ring ?h (this # rs)" and "ring ?h [other]" by simp_all
qed

lemma move_assign_frame:
  assumes r: "ring (unlink h this) (other # rs)" and c: "ring (unlink h this) cs"
    and dis: "set cs \<inter> set (this # other # rs) = {}" and nin: "this \<notin> set (other # rs)"
  shows "ring (move_assign h this other) cs"
proof (cases "is_linked (unlink h this) other")
  case False
  with nin have "move_assign h this other = unlink h this" by (intro move_assign_unlinked) auto
  with c show ?thesis by simp
next
  case True
  from nin have ne: "this \<noteq> other" by auto
  from ring_closed[OF r, of other]
  have in1: "next_p (unlink h this) other \<in> set (other # rs)"
    and in2: "prev_p (unlink h this) other \<in> set (other # rs)" by simp_all
  with nin have "prev_p (unlink h this) other \<noteq> this" by metis
  note f = move_assign_fields[OF ne True this]
  show ?thesis using dis in1 in2
    by (intro ring_frame[OF c]) (auto simp: f)
qed

lemma move_assign_other_ring:
  assumes t: "ring h (this # ts)" and r: "ring h (other # rs)"
    and dis: "set (this # ts) \<inter> set (other # rs) = {}"
  shows "ring (move_assign h this other) (this # rs)"
    and "ring (move_assign h this other) [other]"
    and "ts \<noteq> [] \<Longrightarrow> ring (move_assign h this other) ts"
proof -
  have r1: "ring (unlink h this) (other # rs)"
    using dis by (intro unlink_other_ring[OF t r]) auto
  have t1: "ring (unlink h this) [this]" by (rule unlink_ring(1)[OF t])
  have nin: "this \<notin> set (other # rs)" using dis by auto
  from take_position[OF t1 r1 nin]
  show "ring (move_assign h this other) (this # rs)" "ring (move_assign h this other) [other]" .
  assume "ts \<noteq> []"
  from unlink_ring(2)[OF t this] have "ring (unlink h this) ts" .
  from move_assign_frame[OF r1 this _ nin] t dis
  show "ring (move_assign h this other) ts" by (auto simp: ring_def)
qed

lemma move_assign_same_ring:
  assumes t: "ring h (this # as @ other # bs)"
  shows "ring (move_assign h this other) (this # bs @ as)"
    and "ring (move_assign h this other) [other]"
proof -
  from unlink_ring(2)[OF t] have "ring (unlink h this) (as @ other # bs)" by simp
  then have r1: "ring (unlink h this) (other # bs @ as)"
    using ring_rotate[of "unlink h this" as "other # bs"] by simp
  have t1: "ring (unlink h this) [this]" by (rule unlink_ring(1)[OF t])
  have nin: "this \<notin> set (other # bs @ as)" using t by (auto simp: ring_def)
  from take_position[OF t1 r1 nin]
  show "ring (move_assign h this other) (this # bs @ as)" "ring (move_assign h this other) [other]" .
qed

lemma default_ctor_fields:
  "next_p (default_ctor h p) = (next_p h)(p := p)"
  "prev_p (default_ctor h p) = (prev_p h)(p := p)"
  "alive (default_ctor h p) = insert p (alive h)"
  by (simp_all add: default_ctor_def)

lemma default_ctor_ring: "ring (default_ctor h p) [p]"
  by (simp add: ring_def default_ctor_fields)

lemma default_ctor_frame: "ring h cs \<Longrightarrow> p \<notin> set cs \<Longrightarrow> ring (default_ctor h p) cs"
  by (erule ring_frame) (auto simp: default_ctor_fields)

lemma move_ctor_ring:
  assumes r: "ring h (other # rs)" and nin: "this \<notin> set (other # rs)"
  shows "ring (move_ctor h this other) (this # rs)"
    and "ring (move_ctor h this other) [other]"
  unfolding move_ctor_def
  using move_assign_other_ring(1,2)[OF default_ctor_ring default_ctor_frame[OF r nin]] nin
  by auto

lemma ring_member_linked:
  assumes r: "ring h cs" and x: "x \<in> set cs"
  shows "is_linked h x \<longleftrightarrow> 2 \<le> length cs"
proof -
  from x obtain as bs where cs: "cs = as @ x # bs" by (auto simp: in_set_conv_decomp)
  with r have "ring h (x # bs @ as)" using ring_rotate[of h as "x # bs"] by simp
  from ring_is_linked[OF this] show ?thesis by (cases as; cases bs) (auto simp: cs)
qed

subsection \<open>\<open>splice\<close> on rings and lists\<close>

lemma splice_fields:
  assumes "first \<noteq> le"
  shows "next_p (splice_l h pos first le) =
           (next_p h)(prev_p h pos := first, prev_p h le := pos,
                      prev_p h first := next_p h (prev_p h le))"
    and "prev_p (splice_l h pos first le) =
           (prev_p h)(first := prev_p h pos, pos := prev_p h le,
                      next_p h (prev_p h le) := prev_p h first)"
    and "alive (splice_l h pos first le) = alive h"
  using assms by (simp_all add: splice_l_def Let_def decr_def link_next link_prev link_alive)

lemma chain_frame_distinct:
  assumes c: "chain h xs" and d: "distinct xs"
    and nx: "\<And>x. x \<in> set xs \<Longrightarrow> x \<noteq> last xs \<Longrightarrow> next_p h' x = next_p h x"
    and pv: "\<And>x. x \<in> set xs \<Longrightarrow> x \<noteq> hd xs \<Longrightarrow> prev_p h' x = prev_p h x"
  shows "chain h' xs"
proof (cases "xs = []")
  case True then show ?thesis by simp
next
  case False
  show ?thesis
  proof (rule chain_frame[OF c]; intro ballI)
    fix x assume "x \<in> set (butlast xs)"
    then have "x \<noteq> last xs" "x \<in> set xs"
      using distinct_last_butlast[OF d False] in_set_butlastD[of x xs] by blast+
    then show "next_p h' x = next_p h x" using nx by blast
  next
    fix x assume "x \<in> set (tl xs)"
    then have "x \<noteq> hd xs" "x \<in> set xs"
      using distinct_hd_tl[OF d False] list.set_sel(2)[OF False, of x] by blast+
    then show "prev_p h' x = prev_p h x" using pv by blast
  qed
qed

lemma is_list_at: "is_list h d (us @ ws) \<longleftrightarrow> ring h (ws @ d # us)"
proof (cases ws)
  case Nil then show ?thesis by (simp add: is_list_def)
next
  case (Cons w ws') then show ?thesis by (simp add: is_list_rotate)
qed

lemma splice_other_ring:
  assumes p: "ring h (pos # ps)" and r: "ring h (rng @ le # rest)" and ne: "rng \<noteq> []"
    and dis: "set (pos # ps) \<inter> set (rng @ le # rest) = {}"
  shows "ring (splice_l h pos (hd rng) le) (pos # ps @ rng)"
    and "ring (splice_l h pos (hd rng) le) (le # rest)"
proof -
  define bp l bf f where "bp = last (pos # ps)" and "l = last rng"
    and "bf = last (le # rest)" and "f = hd rng"
  define A T where "A = pos # ps" and "T = le # rest"
  let ?h = "splice_l h pos f le"
  from p have dp: "distinct A" and cp0: "chain h (A @ [pos])"
    by (simp_all add: ring_def A_def)
  from r ne have dr: "distinct rng" and dt: "distinct T"
    and drt: "set rng \<inter> set T = {}" and cr0: "chain h (rng @ T @ [f])"
    by (auto simp: ring_def f_def T_def)
  have fin: "f \<in> set rng" and lin: "l \<in> set rng" using ne by (simp_all add: f_def l_def)
  have bpin: "bp \<in> set A" unfolding bp_def A_def by (rule last_in_set) simp
  have bfin: "bf \<in> set T" unfolding bf_def T_def by (rule last_in_set) simp
  have pin: "pos \<in> set A" and lein: "le \<in> set T" by (simp_all add: A_def T_def)
  have hdA: "hd A = pos" and hdT: "hd T = le" and lA: "last A = bp" and lT: "last T = bf"
    and Ane: "A \<noteq> []" and Tne: "T \<noteq> []"
    by (simp_all add: A_def T_def bp_def bf_def)
  from fin lein drt have fle: "f \<noteq> le" by auto
  from cp0 have cp: "chain h A" and pp: "prev_p h pos = bp"
    unfolding chain_append[of h A] using Ane lA by simp_all
  from cr0 ne have cr: "chain h rng" and ct: "chain h T"
    and pl: "prev_p h le = l" and nl: "next_p h l = le" and pf: "prev_p h f = bf"
    unfolding chain_append[of h rng] chain_append[of h T] using Tne hdT lT
    by (simp_all add: l_def)
  note fl = splice_fields[OF fle, of h pos, unfolded pp pl nl pf]
  have dis': "set A \<inter> set rng = {}" "set A \<inter> set T = {}"
    using dis by (auto simp: A_def T_def)
  have d1: "x \<notin> set rng \<and> x \<notin> set T" if "x \<in> set A" for x
    using dis' that by auto
  have d2: "x \<notin> set A \<and> x \<notin> set T" if "x \<in> set rng" for x
    using dis' drt that by auto
  have d3: "x \<notin> set A \<and> x \<notin> set rng" if "x \<in> set T" for x
    using dis' drt that by auto
  have c1: "chain ?h A"
  proof (rule chain_frame_distinct[OF cp dp])
    fix x assume "x \<in> set A" "x \<noteq> last A"
    with d1[of x] lin bfin lA show "next_p ?h x = next_p h x" unfolding fl by auto
  next
    fix x assume "x \<in> set A" "x \<noteq> hd A"
    with d1[of x] fin lein hdA show "prev_p ?h x = prev_p h x" unfolding fl by auto
  qed
  have c2: "chain ?h rng"
  proof (rule chain_frame_distinct[OF cr dr])
    fix x assume "x \<in> set rng" "x \<noteq> last rng"
    with d2[of x] bpin bfin show "next_p ?h x = next_p h x" unfolding fl l_def[symmetric] by auto
  next
    fix x assume "x \<in> set rng" "x \<noteq> hd rng"
    with d2[of x] pin lein show "prev_p ?h x = prev_p h x" unfolding fl f_def[symmetric] by auto
  qed
  have c3: "chain ?h T"
  proof (rule chain_frame_distinct[OF ct dt])
    fix x assume "x \<in> set T" "x \<noteq> last T"
    with d3[of x] bpin lin lT show "next_p ?h x = next_p h x" unfolding fl by auto
  next
    fix x assume "x \<in> set T" "x \<noteq> hd T"
    with d3[of x] fin pin hdT show "prev_p ?h x = prev_p h x" unfolding fl by auto
  qed
  have j: "next_p ?h bp = f" "prev_p ?h f = bp" "next_p ?h l = pos" "prev_p ?h pos = l"
    "next_p ?h bf = le" "prev_p ?h le = bf"
    using d1[OF bpin] d2[OF fin] d2[OF lin] d3[OF bfin] d1[OF pin] d3[OF lein]
      bpin fin lin bfin pin lein unfolding fl by auto
  have "chain ?h (A @ rng @ [pos])"
    unfolding chain_append[of ?h A] chain_append[of ?h rng]
    using c1 c2 j ne Ane lA by (simp add: f_def[symmetric] l_def[symmetric])
  with dp dr dis' have "ring ?h (A @ rng)" using Ane hdA by (auto simp: ring_def)
  then show "ring (splice_l h pos (hd rng) le) (pos # ps @ rng)" by (simp add: A_def f_def)
  have "chain ?h (T @ [le])"
    unfolding chain_append[of ?h T] using c3 j Tne lT by simp
  with dt have "ring ?h T" using Tne hdT by (simp add: ring_def)
  then show "ring (splice_l h pos (hd rng) le) (le # rest)" by (simp add: T_def f_def)
qed

lemma splice_same_ring:
  assumes r: "ring h (rng @ le # r1 @ pos # r2)" and ne: "rng \<noteq> []"
  shows "ring (splice_l h pos (hd rng) le) (le # r1 @ rng @ pos # r2)"
proof -
  define bp l bf f where "bp = last (le # r1)" and "l = last rng"
    and "bf = last (pos # r2)" and "f = hd rng"
  define A T where "A = pos # r2" and "T = le # r1"
  let ?h = "splice_l h pos f le"
  from r ne have dr: "distinct rng" and dt: "distinct T" and dp: "distinct A"
    and dis: "set rng \<inter> set T = {}" "set rng \<inter> set A = {}" "set T \<inter> set A = {}"
    and c0: "chain h (rng @ T @ A @ [f])"
    by (auto simp: ring_def f_def T_def A_def)
  have fin: "f \<in> set rng" and lin: "l \<in> set rng" using ne by (simp_all add: f_def l_def)
  have bpin: "bp \<in> set T" unfolding bp_def T_def by (rule last_in_set) simp
  have bfin: "bf \<in> set A" unfolding bf_def A_def by (rule last_in_set) simp
  have pin: "pos \<in> set A" and lein: "le \<in> set T" by (simp_all add: A_def T_def)
  have hdA: "hd A = pos" and hdT: "hd T = le" and lA: "last A = bf" and lT: "last T = bp"
    and Ane: "A \<noteq> []" and Tne: "T \<noteq> []"
    by (simp_all add: A_def T_def bp_def bf_def)
  from fin lein dis have fle: "f \<noteq> le" by auto
  from c0 ne have cr: "chain h rng" and ct: "chain h T" and cp: "chain h A"
    and pl: "prev_p h le = l" and nl: "next_p h l = le" and pf: "prev_p h f = bf"
    and pp: "prev_p h pos = bp"
    unfolding chain_append[of h rng] chain_append[of h T] chain_append[of h A]
    using Tne hdT lT Ane hdA lA by (simp_all add: l_def)
  note fl = splice_fields[OF fle, of h pos, unfolded pp pl nl pf]
  have d1: "x \<notin> set rng \<and> x \<notin> set T" if "x \<in> set A" for x
    using dis that by auto
  have d2: "x \<notin> set A \<and> x \<notin> set T" if "x \<in> set rng" for x
    using dis that by auto
  have d3: "x \<notin> set A \<and> x \<notin> set rng" if "x \<in> set T" for x
    using dis that by auto
  have c1: "chain ?h A"
  proof (rule chain_frame_distinct[OF cp dp])
    fix x assume "x \<in> set A" "x \<noteq> last A"
    with d1[of x] lin bpin lA show "next_p ?h x = next_p h x" unfolding fl by auto
  next
    fix x assume "x \<in> set A" "x \<noteq> hd A"
    with d1[of x] fin lein hdA show "prev_p ?h x = prev_p h x" unfolding fl by auto
  qed
  have c2: "chain ?h rng"
  proof (rule chain_frame_distinct[OF cr dr])
    fix x assume "x \<in> set rng" "x \<noteq> last rng"
    with d2[of x] bpin bfin show "next_p ?h x = next_p h x" unfolding fl l_def[symmetric] by auto
  next
    fix x assume "x \<in> set rng" "x \<noteq> hd rng"
    with d2[of x] pin lein show "prev_p ?h x = prev_p h x" unfolding fl f_def[symmetric] by auto
  qed
  have c3: "chain ?h T"
  proof (rule chain_frame_distinct[OF ct dt])
    fix x assume "x \<in> set T" "x \<noteq> last T"
    with d3[of x] bfin lin lT show "next_p ?h x = next_p h x" unfolding fl by auto
  next
    fix x assume "x \<in> set T" "x \<noteq> hd T"
    with d3[of x] fin pin hdT show "prev_p ?h x = prev_p h x" unfolding fl by auto
  qed
  have j: "next_p ?h bp = f" "prev_p ?h f = bp" "next_p ?h l = pos" "prev_p ?h pos = l"
    "next_p ?h bf = le" "prev_p ?h le = bf"
    using d3[OF bpin] d2[OF fin] d2[OF lin] d1[OF bfin] d1[OF pin] d3[OF lein]
      bpin fin lin bfin pin lein unfolding fl by auto
  have "chain ?h (T @ rng @ A @ [le])"
    unfolding chain_append[of ?h T] chain_append[of ?h rng] chain_append[of ?h A]
    using c1 c2 c3 j ne Ane Tne lA lT hdA by (simp add: f_def[symmetric] l_def[symmetric])
  with dp dr dt dis have "ring ?h (T @ rng @ A)" using Tne hdT by (auto simp: ring_def)
  then show ?thesis by (simp add: A_def T_def f_def)
qed

lemma hd_snoc_decomp: "\<exists>rest. ws @ d # us = hd (ws @ [d]) # rest"
  by (cases ws) auto

lemma splice_between_lists:
  assumes l1: "is_list h d1 (pre @ rng @ post)" and ne: "rng \<noteq> []"
    and l2: "is_list h d2 (us @ ws)"
    and dis: "set (d1 # pre @ rng @ post) \<inter> set (d2 # us @ ws) = {}"
  shows "is_list (splice_l h (hd (ws @ [d2])) (hd rng) (hd (post @ [d1]))) d1 (pre @ post)"
    and "is_list (splice_l h (hd (ws @ [d2])) (hd rng) (hd (post @ [d1]))) d2 (us @ rng @ ws)"
proof -
  let ?h = "splice_l h (hd (ws @ [d2])) (hd rng) (hd (post @ [d1]))"
  obtain rest where rest: "post @ d1 # pre = hd (post @ [d1]) # rest"
    using hd_snoc_decomp[of post d1 pre] by blast
  obtain ps where ps: "ws @ d2 # us = hd (ws @ [d2]) # ps"
    using hd_snoc_decomp[of ws d2 us] by blast
  from l1 have "ring h (rng @ post @ d1 # pre)" using is_list_at[of h d1 pre "rng @ post"] by simp
  then have r: "ring h (rng @ hd (post @ [d1]) # rest)" by (simp add: rest)
  from l2 have p: "ring h (hd (ws @ [d2]) # ps)" by (simp add: is_list_at ps)
  have "set (ws @ d2 # us) \<inter> set (rng @ post @ d1 # pre) = {}" using dis by auto
  then have dis': "set (hd (ws @ [d2]) # ps) \<inter> set (rng @ hd (post @ [d1]) # rest) = {}"
    by (simp only: ps rest append_assoc)
  note s = splice_other_ring[OF p r ne dis']
  from s(2) show "is_list ?h d1 (pre @ post)"
    by (simp add: rest[symmetric] is_list_at)
  from s(1) have "ring ?h (ws @ d2 # us @ rng)" using ps by (metis append_Cons append_assoc)
  then show "is_list ?h d2 (us @ rng @ ws)"
    using is_list_at[of ?h d2 "us @ rng" ws] by simp
qed

lemma splice_forward_in_list:
  assumes l: "is_list h d (pre @ rng @ mid @ ws)" and ne: "rng \<noteq> []" and me: "mid \<noteq> []"
  shows "is_list (splice_l h (hd (ws @ [d])) (hd rng) (hd mid)) d (pre @ mid @ rng @ ws)"
proof -
  let ?h = "splice_l h (hd (ws @ [d])) (hd rng) (hd mid)"
  obtain r2 where r2: "ws @ d # pre = hd (ws @ [d]) # r2" using hd_snoc_decomp[of ws d pre] by blast
  from me obtain r1 where r1: "mid = hd mid # r1" by (cases mid) auto
  from l have "ring h (rng @ mid @ ws @ d # pre)"
    using is_list_at[of h d pre "rng @ mid @ ws"] by simp
  then have "ring h (rng @ hd mid # r1 @ hd (ws @ [d]) # r2)"
    using r1 r2 by (metis append_Cons append_assoc)
  from splice_same_ring[OF this ne]
  have "ring ?h (mid @ rng @ ws @ d # pre)" using r1 r2 by (metis append_Cons append_assoc)
  then show ?thesis using is_list_at[of ?h d pre "mid @ rng @ ws"] by simp
qed

lemma splice_backward_in_list:
  assumes l: "is_list h d (us @ ws @ rng @ post)" and ne: "rng \<noteq> []" and we: "ws \<noteq> []"
  shows "is_list (splice_l h (hd ws) (hd rng) (hd (post @ [d]))) d (us @ rng @ ws @ post)"
proof -
  let ?h = "splice_l h (hd ws) (hd rng) (hd (post @ [d]))"
  obtain r1 where r1: "post @ d # us = hd (post @ [d]) # r1" using hd_snoc_decomp[of post d us] by blast
  from we obtain r2 where r2: "ws = hd ws # r2" by (cases ws) auto
  from l have "ring h (rng @ post @ d # us @ ws)"
    using is_list_at[of h d "us @ ws" "rng @ post"] by simp
  then have "ring h (rng @ hd (post @ [d]) # r1 @ hd ws # r2)"
    using r1 r2 by (metis append_Cons append_assoc)
  from splice_same_ring[OF this ne]
  have "ring ?h (post @ d # us @ rng @ ws)" using r1 r2 by (metis append_Cons append_assoc)
  then show ?thesis using is_list_at[of ?h d "us @ rng @ ws" post] by simp
qed

subsection \<open>The consistency of the store is preserved\<close>

lemma ring_invI:
  assumes "finite (alive h)"
    and "\<And>n. n \<in> alive h \<Longrightarrow> next_p h n \<in> alive h"
    and "\<And>n. n \<in> alive h \<Longrightarrow> prev_p h n \<in> alive h"
    and "\<And>n. n \<in> alive h \<Longrightarrow> prev_p h (next_p h n) = n"
    and "\<And>n. n \<in> alive h \<Longrightarrow> next_p h (prev_p h n) = n"
  shows "ring_inv h"
  using assms by (simp add: ring_inv_def)

lemma ring_invD:
  assumes "ring_inv h" "n \<in> alive h"
  shows "next_p h n \<in> alive h" "prev_p h n \<in> alive h"
    "prev_p h (next_p h n) = n" "next_p h (prev_p h n) = n"
  using assms by (simp_all add: ring_inv_def)

lemma ring_inv_unlink:
  assumes i: "ring_inv h" and p: "p \<in> alive h"
  shows "ring_inv (unlink h p)"
proof (rule ring_invI)
  note d = ring_invD[OF i]
  show "finite (alive (unlink h p))" using i by (simp add: unlink_alive ring_inv_def)
  fix n assume "n \<in> alive (unlink h p)"
  then have n: "n \<in> alive h" by (simp add: unlink_alive)
  show "next_p (unlink h p) n \<in> alive (unlink h p)"
    using d(1)[OF n] d(1)[OF p] p by (simp add: unlink_alive unlink_next)
  show "prev_p (unlink h p) n \<in> alive (unlink h p)"
    using d(2)[OF n] d(2)[OF p] p by (simp add: unlink_alive unlink_prev)
  show "prev_p (unlink h p) (next_p (unlink h p) n) = n"
    using d(3)[OF n] d(3)[OF p] d(4)[OF p] d(4)[OF n]
    by (auto simp: unlink_next unlink_prev) (metis+)?
  show "next_p (unlink h p) (prev_p (unlink h p) n) = n"
    using d(3)[OF n] d(3)[OF p] d(4)[OF p] d(4)[OF n]
    by (auto simp: unlink_next unlink_prev) (metis+)?
qed

lemma ring_inv_default_ctor:
  assumes i: "ring_inv h" and p: "p \<notin> alive h"
  shows "ring_inv (default_ctor h p)"
proof (rule ring_invI)
  let ?h = "default_ctor h p"
  note d = ring_invD[OF i]
  show "finite (alive ?h)" using i by (simp add: default_ctor_fields ring_inv_def)
  fix n assume n: "n \<in> alive ?h"
  show "next_p ?h n \<in> alive ?h" "prev_p ?h n \<in> alive ?h"
    "prev_p ?h (next_p ?h n) = n" "next_p ?h (prev_p ?h n) = n"
  proof -
    have "next_p ?h n \<in> alive ?h \<and> prev_p ?h n \<in> alive ?h \<and>
      prev_p ?h (next_p ?h n) = n \<and> next_p ?h (prev_p ?h n) = n"
    proof (cases "n = p")
      case True then show ?thesis by (simp add: default_ctor_fields)
    next
      case False
      with n have m: "n \<in> alive h" by (simp add: default_ctor_fields)
      from d(1)[OF m] d(2)[OF m] p have "next_p h n \<noteq> p" "prev_p h n \<noteq> p" by auto
      with False d(1)[OF m] d(2)[OF m] d(3)[OF m] d(4)[OF m] show ?thesis
        by (simp add: default_ctor_fields)
    qed
    then show "next_p ?h n \<in> alive ?h" "prev_p ?h n \<in> alive ?h"
      "prev_p ?h (next_p ?h n) = n" "next_p ?h (prev_p ?h n) = n" by simp_all
  qed
qed

lemma ring_inv_link_before:
  assumes i: "ring_inv h" and pos: "pos \<in> alive h" and v: "v \<in> alive h"
    and sl: "prev_p h v = v" "next_p h v = v" and ne: "pos \<noteq> v"
  shows "ring_inv (link (link h (prev_p h pos) v) v pos)"
proof (rule ring_invI)
  let ?h = "link (link h (prev_p h pos) v) v pos"
  note d = ring_invD[OF i]
  have al: "alive ?h = alive h" by (simp add: link_alive)
  have nx: "next_p ?h = (next_p h)(prev_p h pos := v, v := pos)"
    and pv: "prev_p ?h = (prev_p h)(v := prev_p h pos, pos := v)"
    by (simp_all add: link_next link_prev)
  from d(4)[OF pos] sl ne have bv: "prev_p h pos \<noteq> v" by auto
  show "finite (alive ?h)" using i by (simp add: al ring_inv_def)
  fix n assume "n \<in> alive ?h"
  then have n: "n \<in> alive h" by (simp add: al)
  show "next_p ?h n \<in> alive ?h" using d(1)[OF n] pos v by (simp add: al nx)
  show "prev_p ?h n \<in> alive ?h" using d(2)[OF n] d(2)[OF pos] pos v by (simp add: al pv)
  show "prev_p ?h (next_p ?h n) = n"
    using d(3)[OF n] d(4)[OF n] d(3)[OF pos] d(4)[OF pos] sl ne bv
    unfolding nx pv by (auto) (metis+)?
  show "next_p ?h (prev_p ?h n) = n"
    using d(3)[OF n] d(4)[OF n] d(3)[OF pos] d(4)[OF pos] sl ne bv
    unfolding nx pv by (auto) (metis+)?
qed

lemma unlink_self_looped: "prev_p (unlink h v) v = v" "next_p (unlink h v) v = v"
  by (simp_all add: unlink_prev unlink_next)

lemma ring_inv_insert:
  assumes i: "ring_inv h" and pos: "pos \<in> alive h" and v: "v \<in> alive h"
  shows "ring_inv (fst (insert_l h pos v))"
proof (cases "pos = v")
  case True with i show ?thesis by (simp add: insert_l_def)
next
  case False
  have "ring_inv (link (link (unlink h v) (prev_p (unlink h v) pos) v) v pos)"
    using pos v False
    by (intro ring_inv_link_before ring_inv_unlink[OF i v] unlink_self_looped)
      (simp_all add: unlink_alive)
  with False show ?thesis by (simp add: insert_l_unfold)
qed

lemma ring_inv_move_assign:
  assumes i: "ring_inv h" and t: "this \<in> alive h" and o: "other \<in> alive h"
  shows "ring_inv (move_assign h this other)"
proof (cases "this = other \<or> \<not> is_linked (unlink h this) other")
  case True
  then show ?thesis using i ring_inv_unlink[OF i t]
    by (auto simp: move_assign_def Let_def)
next
  case False
  let ?h1 = "unlink h this" and ?h = "move_assign h this other"
  from False have ne: "this \<noteq> other" and il: "is_linked ?h1 other" by simp_all
  have i1: "ring_inv ?h1" by (rule ring_inv_unlink[OF i t])
  have t1: "this \<in> alive ?h1" and o1: "other \<in> alive ?h1" using t o by (simp_all add: unlink_alive)
  note d = ring_invD[OF i1]
  have sl: "prev_p ?h1 this = this" "next_p ?h1 this = this" by (rule unlink_self_looped)+
  from d(4)[OF o1] sl ne have pt: "prev_p ?h1 other \<noteq> this" by auto
  from d(3)[OF o1] sl ne have nt: "next_p ?h1 other \<noteq> this" by auto
  from il have po: "prev_p ?h1 other \<noteq> other" by (simp add: is_linked_def)
  from d(3)[OF o1] po have no: "next_p ?h1 other \<noteq> other" by auto
  note f = move_assign_fields[OF ne il pt]
  show ?thesis
  proof (rule ring_invI)
    show "finite (alive ?h)" using i by (simp add: f ring_inv_def)
    fix n assume "n \<in> alive ?h"
    then have n: "n \<in> alive ?h1" by (simp add: f unlink_alive)
    have al: "alive ?h = alive ?h1" by (simp add: f unlink_alive)
    show "next_p ?h n \<in> alive ?h" using d(1)[OF n] d(1)[OF o1] t1 o1 by (simp add: al f(1))
    show "prev_p ?h n \<in> alive ?h" using d(2)[OF n] d(2)[OF o1] t1 o1 by (simp add: al f(2))
    show "prev_p ?h (next_p ?h n) = n"
      using d(3)[OF n] d(4)[OF n] d(3)[OF o1] d(4)[OF o1] sl ne pt nt po no
      unfolding f by (auto) (metis+)?
    show "next_p ?h (prev_p ?h n) = n"
      using d(3)[OF n] d(4)[OF n] d(3)[OF o1] d(4)[OF o1] sl ne pt nt po no
      unfolding f by (auto) (metis+)?
  qed
qed

lemma ring_inv_splice:
  assumes i: "ring_inv h" and pos: "pos \<in> alive h" and f: "first \<in> alive h"
    and le: "le \<in> alive h" and pf: "pos \<noteq> first" and pl: "pos \<noteq> le"
  shows "ring_inv (splice_l h pos first le)"
proof (cases "first = le")
  case True with i show ?thesis by (simp add: splice_l_def)
next
  case False
  let ?h = "splice_l h pos first le"
  note d = ring_invD[OF i]
  from d(4)[OF le] have nl: "next_p h (prev_p h le) = le" .
  note fl = splice_fields[OF False, of h pos, unfolded nl]
  have ne: "prev_p h pos \<noteq> prev_p h le" "prev_p h pos \<noteq> prev_p h first"
    "prev_p h le \<noteq> prev_p h first"
    using d(4)[OF pos] d(4)[OF f] d(4)[OF le] pf pl False by metis+
  show ?thesis
  proof (rule ring_invI)
    show "finite (alive ?h)" using i by (simp add: fl ring_inv_def)
    fix n assume "n \<in> alive ?h"
    then have n: "n \<in> alive h" by (simp add: fl)
    show "next_p ?h n \<in> alive ?h" using d(1)[OF n] pos f le by (simp add: fl)
    show "prev_p ?h n \<in> alive ?h"
      using d(2)[OF n] d(2)[OF pos] d(2)[OF f] d(2)[OF le] by (simp add: fl)
    show "prev_p ?h (next_p ?h n) = n"
      using d(3)[OF n] d(4)[OF n] d(4)[OF pos] d(4)[OF f] d(4)[OF le] pf pl False ne
      unfolding fl by (auto) (metis+)?
    show "next_p ?h (prev_p ?h n) = n"
      using d(3)[OF n] d(4)[OF n] d(4)[OF pos] d(4)[OF f] d(4)[OF le] pf pl False ne
      unfolding fl by (auto) (metis+)?
  qed
qed

text \<open>
  With \<open>pos\<close> at \<open>first\<close> the range becomes a ring of its own and the store stays
  consistent. With \<open>pos\<close> at \<open>last_exclusive\<close> and a non-empty range, no consistent store
  stays consistent: the last node of the range points forward to \<open>last_exclusive\<close>, which
  points back to \<open>before_first\<close>.
\<close>

lemma ring_inv_splice_at_first:
  assumes i: "ring_inv h" and f: "first \<in> alive h" and le: "le \<in> alive h"
    and ne: "first \<noteq> le"
  shows "ring_inv (splice_l h first first le)"
proof -
  let ?h = "splice_l h first first le"
  note d = ring_invD[OF i]
  from d(4)[OF le] have nl: "next_p h (prev_p h le) = le" .
  have nx: "next_p ?h = (next_p h)(prev_p h le := first, prev_p h first := le)"
    and pv: "prev_p ?h = (prev_p h)(first := prev_p h le, le := prev_p h first)"
    and al: "alive ?h = alive h"
    using splice_fields[OF ne, of h first, unfolded nl] by (simp_all add: fun_upd_twist)
  have lf: "prev_p h le \<noteq> prev_p h first"
    using d(4)[OF f] d(4)[OF le] ne by metis
  show ?thesis
  proof (rule ring_invI)
    show "finite (alive ?h)" using i by (simp add: al ring_inv_def)
    fix n assume "n \<in> alive ?h"
    then have n: "n \<in> alive h" by (simp add: al)
    show "next_p ?h n \<in> alive ?h" using d(1)[OF n] f le by (simp add: al nx)
    show "prev_p ?h n \<in> alive ?h" using d(2)[OF n] d(2)[OF f] d(2)[OF le] by (simp add: al pv)
    show "prev_p ?h (next_p ?h n) = n"
      using d(3)[OF n] d(4)[OF n] d(4)[OF f] d(4)[OF le] ne lf
      unfolding nx pv by (auto) (metis+)?
    show "next_p ?h (prev_p ?h n) = n"
      using d(3)[OF n] d(4)[OF n] d(4)[OF f] d(4)[OF le] ne lf
      unfolding nx pv by (auto) (metis+)?
  qed
qed

lemma ring_inv_splice_any:
  assumes i: "ring_inv h" and pos: "pos \<in> alive h" and f: "first \<in> alive h"
    and le: "le \<in> alive h" and pl: "first = le \<or> pos \<noteq> le"
  shows "ring_inv (splice_l h pos first le)"
proof (cases "first = le")
  case True with i show ?thesis by (simp add: splice_l_def)
next
  case False
  with pl have ple: "pos \<noteq> le" by simp
  show ?thesis
  proof (cases "pos = first")
    case True
    with ring_inv_splice_at_first[OF i f le False] show ?thesis by simp
  next
    case False
    then show ?thesis using ple by (intro ring_inv_splice[OF i pos f le])
  qed
qed

lemma splice_at_last_exclusive_breaks:
  assumes i: "ring_inv h" and f: "first \<in> alive h" and le: "le \<in> alive h"
    and ne: "first \<noteq> le"
  shows "\<not> ring_inv (splice_l h le first le)"
proof
  let ?h = "splice_l h le first le"
  assume r: "ring_inv ?h"
  note d = ring_invD[OF i]
  from d(4)[OF le] have nl: "next_p h (prev_p h le) = le" .
  note fl = splice_fields[OF ne, of h le, unfolded nl]
  have lf: "prev_p h le \<noteq> prev_p h first"
    using d(4)[OF f] d(4)[OF le] ne by metis
  have l: "prev_p h le \<in> alive ?h" using d(2)[OF le] by (simp add: fl)
  have "next_p ?h (prev_p h le) = le" by (simp add: fl)
  moreover have "prev_p ?h le = prev_p h first" by (simp add: fl)
  ultimately have "prev_p ?h (next_p ?h (prev_p h le)) \<noteq> prev_p h le" using lf by simp
  with ring_invD(3)[OF r l] show False by simp
qed

subsection \<open>A consistent store consists of rings\<close>

lemma iter_alive:
  "ring_inv h \<Longrightarrow> n \<in> alive h \<Longrightarrow> (next_p h ^^ i) n \<in> alive h"
  by (induction i) (simp_all add: ring_invD(1))

lemma iter_cancel:
  assumes i: "ring_inv h" and n: "n \<in> alive h"
  shows "(next_p h ^^ (j + k)) n = (next_p h ^^ j) n \<Longrightarrow> (next_p h ^^ k) n = n"
proof (induction j)
  case 0 then show ?case by simp
next
  case (Suc j)
  then have "next_p h ((next_p h ^^ (j + k)) n) = next_p h ((next_p h ^^ j) n)" by simp
  then have "prev_p h (next_p h ((next_p h ^^ (j + k)) n)) = prev_p h (next_p h ((next_p h ^^ j) n))"
    by simp
  then have "(next_p h ^^ (j + k)) n = (next_p h ^^ j) n"
    using ring_invD(3)[OF i iter_alive[OF i n]] by simp
  then show ?case by (rule Suc.IH)
qed

lemma iter_periodic:
  assumes i: "ring_inv h" and n: "n \<in> alive h"
  shows "\<exists>k>0. (next_p h ^^ k) n = n"
proof -
  let ?g = "\<lambda>i. (next_p h ^^ i) n"
  from i have fin: "finite (alive h)" by (simp add: ring_inv_def)
  have sub: "?g ` {..card (alive h)} \<subseteq> alive h" using iter_alive[OF i n] by auto
  have "card (?g ` {..card (alive h)}) \<le> card (alive h)" by (rule card_mono[OF fin sub])
  then have "card (?g ` {..card (alive h)}) < card {..card (alive h)}" by simp
  then have "\<not> inj_on ?g {..card (alive h)}" by (rule pigeonhole)
  then obtain a b where ab: "a < b" "?g a = ?g b"
    unfolding inj_on_def by (metis linorder_neqE_nat)
  then have "(next_p h ^^ (a + (b - a))) n = (next_p h ^^ a) n" by simp
  from iter_cancel[OF i n this] ab(1) show ?thesis by (intro exI[of _ "b - a"]) simp
qed

lemma chain_iter:
  assumes i: "ring_inv h" and n: "n \<in> alive h"
  shows "chain h (map (\<lambda>i. (next_p h ^^ i) n) [0..<m])"
proof (induction m)
  case 0 show ?case by simp
next
  case (Suc m)
  let ?g = "\<lambda>i. (next_p h ^^ i) n"
  show ?case
  proof (cases m)
    case 0 then show ?thesis by simp
  next
    case (Suc m')
    have pv: "prev_p h (?g m) = ?g m'"
      using ring_invD(3)[OF i iter_alive[OF i n, of m']] Suc by simp
    have nx: "next_p h (?g m') = ?g m" using Suc by simp
    have l: "last (map ?g [0..<m]) = ?g m'" and ne: "map ?g [0..<m] \<noteq> []"
      using Suc by simp_all
    have "chain h (map ?g [0..<m] @ [?g m])"
      unfolding chain_append[of h "map ?g [0..<m]" "[?g m]"] l
      using Suc.IH pv nx by simp
    then show ?thesis by simp
  qed
qed

lemma ring_inv_on_ring:
  assumes i: "ring_inv h" and n: "n \<in> alive h"
  shows "\<exists>cs. ring h (n # cs) \<and> set cs \<subseteq> alive h"
proof -
  let ?g = "\<lambda>i. (next_p h ^^ i) n"
  define k where "k = (LEAST k. 0 < k \<and> ?g k = n)"
  from iter_periodic[OF i n] have k: "0 < k \<and> ?g k = n"
    unfolding k_def by (rule LeastI_ex)
  have least: "\<not> (0 < j \<and> ?g j = n)" if "j < k" for j
    using not_less_Least[of j "\<lambda>k. 0 < k \<and> ?g k = n"] that unfolding k_def by blast
  have inj: "inj_on ?g {0..<k}"
  proof (rule inj_onI)
    fix a b assume a: "a \<in> {0..<k}" and b: "b \<in> {0..<k}" and e: "?g a = ?g b"
    have "False" if lt: "x < y" and y: "y < k" and e: "?g x = ?g y" for x y
    proof -
      from lt e have "(next_p h ^^ (x + (y - x))) n = (next_p h ^^ x) n" by simp
      from iter_cancel[OF i n this] have "?g (y - x) = n" .
      moreover have "y - x < k" "0 < y - x" using lt y by arith+
      ultimately show False using least[of "y - x"] by blast
    qed
    from this[of a b] this[of b a] a b e show "a = b" by (cases a b rule: linorder_cases) auto
  qed
  have d: "distinct (map ?g [0..<k])" by (simp add: distinct_map inj)
  have "map ?g [0..<k] @ [n] = map ?g [0..<Suc k]" using k by simp
  with chain_iter[OF i n, of "Suc k"] have c: "chain h (map ?g [0..<k] @ [n])" by simp
  have e: "map ?g [0..<k] = n # map ?g [Suc 0..<k]" using k by (simp add: upt_conv_Cons)
  have "ring h (n # map ?g [Suc 0..<k])" using d c unfolding e by (simp add: ring_def)
  moreover have "set (map ?g [Suc 0..<k]) \<subseteq> alive h" using iter_alive[OF i n] by auto
  ultimately show ?thesis by blast
qed

subsection \<open>The example store\<close>

lemma ex_heap_built: "build_ex = ex_heap"
  unfolding build_ex_def Let_def
  by (simp add: fresh_store_def list_ctor_def default_ctor_def push_back_def end_l_def insert_l_def
      unlink_def link_def Let_def ex_heap_def fun_eq_iff) auto

lemma ring_inv_ex_heap: "ring_inv ex_heap"
  by (simp add: ring_inv_def ex_heap_def)

lemma ex_heap_lists:
  "is_list ex_heap 0 [1, 2, 3]" "is_list ex_heap 4 []" "is_list ex_heap 6 [7]"
  by (simp_all add: is_list_def ring_def ex_heap_def)

lemma ex_heap_cleared_lists:
  "is_list (clear ex_heap 0) 0 []" "is_list (clear ex_heap 0) 4 []"
  "is_list (clear ex_heap 0) 6 [7]"
  by (simp_all add: is_list_def ring_def clear_def unlink_next unlink_prev ex_heap_def)

section \<open>The claims\<close>

text \<open>
  C1. The destructor of a node is defaulted and the destructor of a list destroys its dummy
  the same way, so destruction writes no link field: the claim that the node is unlinked
  first does not hold of the code. In the example store, after the member 2 of the list
  1, 2, 3 is destroyed, its neighbours 1 and 3 still point to it and iterating the list
  still visits it; after the list itself is destroyed, its first and last member still
  point to the dummy.
\<close>

theorem dtor_leaves_node_linked:
  "next_p (dtor h p) = next_p h \<and> prev_p (dtor h p) = prev_p h \<and>
   is_list ex_heap 0 [1, 2, 3] \<and>
   2 \<notin> alive (dtor ex_heap 2) \<and>
   next_p (dtor ex_heap 2) 1 = 2 \<and> prev_p (dtor ex_heap 2) 3 = 2 \<and>
   contents (dtor ex_heap 2) 0 = Some [1, 2, 3] \<and>
   0 \<notin> alive (list_dtor ex_heap 0) \<and>
   prev_p (list_dtor ex_heap 0) 1 = 0 \<and> next_p (list_dtor ex_heap 0) 3 = 0"
proof -
  have "is_list (dtor ex_heap 2) 0 [1, 2, 3]"
    by (simp add: is_list_def ring_def dtor_def ex_heap_def)
  from is_list_contents[OF this] ex_heap_lists(1) show ?thesis
    by (simp add: dtor_def list_dtor_def ex_heap_def)
qed

text \<open>
  C2 as stated fails for \<open>clear\<close>: it unlinks only the dummy, so the former members of a
  list of two or more are members of no list and yet are not self-looped. In the example
  store, with the lists of the dummies 0, 4 and 6, the invariant of the claim holds before
  \<open>clear\<close> of the list 1, 2, 3 and fails after it.
\<close>

theorem clear_breaks_self_loop_counterexample:
  "struct_inv {0, 4, 6} ex_heap \<and> \<not> struct_inv {0, 4, 6} (clear ex_heap 0)"
proof -
  note c = ex_heap_lists[THEN is_list_contents] and c' = ex_heap_cleared_lists[THEN is_list_contents]
  have al: "alive ex_heap - {0, 4, 6} = {1, 2, 3, 5, 7}" by (auto simp: ex_heap_def)
  have pre: "struct_inv {0, 4, 6} ex_heap"
    unfolding struct_inv_def al by (simp add: ring_inv_ex_heap member_of_def c) (simp add: ex_heap_def)
  have "1 \<in> alive (clear ex_heap 0) - {0, 4, 6}"
    by (simp add: clear_def unlink_alive ex_heap_def)
  moreover have "\<forall>d \<in> {0, 4, 6}. \<not> member_of (clear ex_heap 0) d 1"
    by (simp add: member_of_def c')
  moreover have "prev_p (clear ex_heap 0) 1 \<noteq> 1"
    by (simp add: clear_def unlink_prev ex_heap_def)
  ultimately have "\<not> struct_inv {0, 4, 6} (clear ex_heap 0)"
    unfolding struct_inv_def by blast
  with pre show ?thesis by simp
qed

text \<open>
  C2, amended. In a consistent store every object alive lies on a ring of objects alive
  (its forward pointers lead back to it through distinct nodes, forward and back being
  mutual inverses), and a node for which \<open>is_linked\<close> is false is self-looped. Every
  operation returns a consistent store: the constructors on an address that holds no
  object; the assignments, \<open>unlink\<close>, \<open>insert\<close>, \<open>erase\<close>, \<open>push_front\<close>, \<open>push_back\<close>,
  \<open>pop_front\<close>, \<open>pop_back\<close> and \<open>clear\<close> on objects alive; \<open>splice\<close> on objects alive, for
  every call but one. The call left out is \<open>splice\<close> of a non-empty range with \<open>pos\<close> at
  \<open>last_exclusive\<close>: there the code breaks the consistency of every store
  (\<open>splice_at_last_exclusive_breaks\<close>), which is the defect of C3 and not a precondition of
  the operation.
\<close>

theorem operations_preserve_ring_inv:
  assumes i: "ring_inv h"
  shows "(\<forall>n \<in> alive h. (\<exists>cs. ring h (n # cs) \<and> set cs \<subseteq> alive h) \<and>
                      (\<not> is_linked h n \<longrightarrow> prev_p h n = n \<and> next_p h n = n)) \<and>
         (p \<notin> alive h \<longrightarrow>
            ring_inv (default_ctor h p) \<and> ring_inv (copy_ctor h p q) \<and>
            (q \<in> alive h \<longrightarrow> ring_inv (move_ctor h p q))) \<and>
         (a \<in> alive h \<and> b \<in> alive h \<longrightarrow>
            ring_inv (copy_assign h a b) \<and> ring_inv (move_assign h a b) \<and>
            ring_inv (unlink h a) \<and>
            ring_inv (fst (insert_l h a b)) \<and> ring_inv (fst (erase h a)) \<and>
            ring_inv (push_front h a b) \<and> ring_inv (push_back h a b) \<and>
            ring_inv (pop_front h a) \<and> ring_inv (pop_back h a) \<and>
            ring_inv (clear h a)) \<and>
         (pos \<in> alive h \<and> first \<in> alive h \<and> le \<in> alive h \<and> (first = le \<or> pos \<noteq> le) \<longrightarrow>
            ring_inv (splice_l h pos first le))"
proof -
  note d = ring_invD[OF i]
  have 1: "\<forall>n \<in> alive h. (\<exists>cs. ring h (n # cs) \<and> set cs \<subseteq> alive h) \<and>
                      (\<not> is_linked h n \<longrightarrow> prev_p h n = n \<and> next_p h n = n)"
  proof
    fix n assume n: "n \<in> alive h"
    have "prev_p h n = n \<and> next_p h n = n" if "\<not> is_linked h n"
      using that d(4)[OF n] by (simp add: is_linked_def)
    with ring_inv_on_ring[OF i n]
    show "(\<exists>cs. ring h (n # cs) \<and> set cs \<subseteq> alive h) \<and>
          (\<not> is_linked h n \<longrightarrow> prev_p h n = n \<and> next_p h n = n)" by blast
  qed
  have 2: "ring_inv (default_ctor h p) \<and> ring_inv (copy_ctor h p q) \<and>
            (q \<in> alive h \<longrightarrow> ring_inv (move_ctor h p q))" if p: "p \<notin> alive h"
  proof -
    have c: "ring_inv (default_ctor h p)" by (rule ring_inv_default_ctor[OF i p])
    have "ring_inv (move_ctor h p q)" if "q \<in> alive h"
      unfolding move_ctor_def using that
      by (intro ring_inv_move_assign[OF c]) (simp_all add: default_ctor_fields)
    with c show ?thesis by (simp add: copy_ctor_def)
  qed
  have 3: "ring_inv (copy_assign h a b) \<and> ring_inv (move_assign h a b) \<and>
            ring_inv (unlink h a) \<and>
            ring_inv (fst (insert_l h a b)) \<and> ring_inv (fst (erase h a)) \<and>
            ring_inv (push_front h a b) \<and> ring_inv (push_back h a b) \<and>
            ring_inv (pop_front h a) \<and> ring_inv (pop_back h a) \<and>
            ring_inv (clear h a)" if a: "a \<in> alive h" and b: "b \<in> alive h"
  proof -
    note u = ring_inv_unlink[OF i]
    have "ring_inv (copy_assign h a b)" using i u[OF a] by (simp add: copy_assign_def)
    moreover have "ring_inv (move_assign h a b)" by (rule ring_inv_move_assign[OF i a b])
    moreover have "ring_inv (fst (insert_l h a b))" by (rule ring_inv_insert[OF i a b])
    moreover have "ring_inv (fst (erase h a))" using u[OF a] by (simp add: erase_def Let_def)
    moreover have "ring_inv (push_front h a b)"
      unfolding push_front_def begin_l_def by (rule ring_inv_insert[OF i d(1)[OF a] b])
    moreover have "ring_inv (push_back h a b)"
      unfolding push_back_def end_l_def by (rule ring_inv_insert[OF i a b])
    moreover have "ring_inv (pop_front h a)"
      using u[OF d(1)[OF a]] by (simp add: pop_front_def begin_l_def erase_def Let_def)
    moreover have "ring_inv (pop_back h a)"
      using u[OF d(2)[OF a]] by (simp add: pop_back_def end_l_def decr_def erase_def Let_def)
    moreover have "ring_inv (clear h a)" using u[OF a] by (simp add: clear_def)
    ultimately show ?thesis using u[OF a] by simp
  qed
  have 4: "ring_inv (splice_l h pos first le)"
    if "pos \<in> alive h" "first \<in> alive h" "le \<in> alive h" "first = le \<or> pos \<noteq> le"
    using that by (rule ring_inv_splice_any[OF i])
  from 1 2 3 4 show ?thesis by blast
qed

text \<open>
  Witness for C2: the example store is consistent, and so is it after each operation; for
  \<open>splice\<close>, with \<open>pos\<close> in another list, with \<open>pos\<close> at \<open>first\<close>, and with an empty range
  whose end is \<open>pos\<close>.
\<close>

theorem operations_preserve_ring_inv_witness:
  "ring_inv ex_heap \<and>
   ring_inv (default_ctor ex_heap 8) \<and> ring_inv (move_ctor ex_heap 8 2) \<and>
   ring_inv (move_assign ex_heap 5 2) \<and> ring_inv (copy_assign ex_heap 2 3) \<and>
   ring_inv (fst (insert_l ex_heap 7 2)) \<and> ring_inv (fst (erase ex_heap 2)) \<and>
   ring_inv (push_back ex_heap 4 1) \<and> ring_inv (pop_front ex_heap 0) \<and>
   ring_inv (clear ex_heap 0) \<and> ring_inv (splice_l ex_heap 4 1 0) \<and>
   ring_inv (splice_l ex_heap 1 1 3) \<and> ring_inv (splice_l ex_heap 3 2 2) \<and>
   prev_p ex_heap 5 = 5 \<and> next_p ex_heap 5 = 5"
proof -
  have a: "8 \<notin> alive ex_heap" "2 \<in> alive ex_heap" "5 \<in> alive ex_heap" "3 \<in> alive ex_heap"
    "7 \<in> alive ex_heap" "4 \<in> alive ex_heap" "1 \<in> alive ex_heap" "0 \<in> alive ex_heap"
    "\<not> is_linked ex_heap 5"
    by (simp_all add: ex_heap_def is_linked_def)
  note t = operations_preserve_ring_inv[OF ring_inv_ex_heap]
  from t[where p=8 and q=2] a
  have 1: "ring_inv (default_ctor ex_heap 8)" "ring_inv (move_ctor ex_heap 8 2)" by simp_all
  from t[where a=5 and b=2] a have 2: "ring_inv (move_assign ex_heap 5 2)" by simp
  from t[where a=2 and b=3] a have 3: "ring_inv (copy_assign ex_heap 2 3)"
    "ring_inv (fst (erase ex_heap 2))" by simp_all
  from t[where a=7 and b=2] a have 4: "ring_inv (fst (insert_l ex_heap 7 2))" by simp
  from t[where a=4 and b=1] a have 5: "ring_inv (push_back ex_heap 4 1)" by simp
  from t[where a=0 and b=0] a have 6: "ring_inv (pop_front ex_heap 0)" "ring_inv (clear ex_heap 0)"
    by simp_all
  from t[where pos=4 and first=1 and le=0] a have 7: "ring_inv (splice_l ex_heap 4 1 0)" by simp
  from t[where pos=1 and first=1 and le=3] a have 9: "ring_inv (splice_l ex_heap 1 1 3)" by simp
  from t[where pos=3 and first=2 and le=2] a have 10: "ring_inv (splice_l ex_heap 3 2 2)" by simp
  from t a have 8: "prev_p ex_heap 5 = 5 \<and> next_p ex_heap 5 = 5" by blast
  from 1 2 3 4 5 6 7 8 9 10 ring_inv_ex_heap show ?thesis by simp
qed

text \<open>
  C3. The claim fails on the code for a call it covers: \<open>pos\<close> at \<open>last_exclusive\<close>, where
  the range already sits immediately before \<open>pos\<close> and the list should not change.
  \<open>splice\<close> reads \<open>before_pos\<close> before it relinks, so \<open>before_pos\<close> is the last node of the
  range, and the third \<open>link\<close> joins \<open>before_first\<close> to \<open>pos\<close>, which cuts the range out of
  the list. On the list 1, 2, 3 of the example store, \<open>splice\<close> of the range from 1 up to 3
  before 3 leaves a list that holds only 3; node 2 still points forward to 3 while 3 points
  back to the dummy. \<open>insert\<close> handles the same adjacency, reading the predecessor of
  \<open>pos\<close> after the unlink.
\<close>

theorem splice_at_range_end_breaks_list:
  "is_list ex_heap 0 [1, 2, 3] \<and>
   contents (splice_l ex_heap 3 1 3) 0 = Some [3] \<and>
   \<not> is_list (splice_l ex_heap 3 1 3) 0 [1, 2, 3] \<and>
   next_p (splice_l ex_heap 3 1 3) 2 = 3 \<and> prev_p (splice_l ex_heap 3 1 3) 3 = 0"
proof -
  have "is_list (splice_l ex_heap 3 1 3) 0 [3]"
    by (simp add: is_list_def ring_def splice_l_def Let_def decr_def link_next link_prev
        ex_heap_def)
  from is_list_contents[OF this] show ?thesis
    by (simp add: is_list_def ring_def splice_l_def Let_def decr_def link_next link_prev ex_heap_def)
qed

text \<open>
  For every other position the code does what C3 says. The range is the non-empty \<open>rng\<close>,
  \<open>first\<close> is its head and \<open>last_exclusive\<close> the node after it (the dummy when the range
  ends the list). With \<open>first = last_exclusive\<close> the store is unchanged. A range of one
  list spliced to a position of another list leaves the first list without the range and
  the second with the range, in its order, before the position. Within one list the range
  moves before a later position other than \<open>last_exclusive\<close>, or before an earlier one. No
  object is created or destroyed, so iterators to the moved members denote the same nodes.
\<close>

theorem splice_moves_range:
  "splice_l h pos first first = h \<and>
   alive (splice_l h pos first le) = alive h \<and>
   (is_list h d1 (pre @ rng @ post) \<and> rng \<noteq> [] \<and> is_list h d2 (us @ ws) \<and>
    set (d1 # pre @ rng @ post) \<inter> set (d2 # us @ ws) = {} \<longrightarrow>
      is_list (splice_l h (hd (ws @ [d2])) (hd rng) (hd (post @ [d1]))) d1 (pre @ post) \<and>
      is_list (splice_l h (hd (ws @ [d2])) (hd rng) (hd (post @ [d1]))) d2 (us @ rng @ ws)) \<and>
   (is_list h d (pre @ rng @ mid @ ws) \<and> rng \<noteq> [] \<and> mid \<noteq> [] \<longrightarrow>
      is_list (splice_l h (hd (ws @ [d])) (hd rng) (hd mid)) d (pre @ mid @ rng @ ws)) \<and>
   (is_list h d (us @ ws @ rng @ post) \<and> rng \<noteq> [] \<and> ws \<noteq> [] \<longrightarrow>
      is_list (splice_l h (hd ws) (hd rng) (hd (post @ [d]))) d (us @ rng @ ws @ post))"
proof -
  have 1: "splice_l h pos first first = h" by (simp add: splice_l_def)
  have 2: "alive (splice_l h pos first le) = alive h"
    by (simp add: splice_l_def Let_def link_alive)
  from 1 2 splice_between_lists[of h d1 pre rng post d2 us ws]
    splice_forward_in_list[of h d pre rng mid ws] splice_backward_in_list[of h d us ws rng post]
  show ?thesis by blast
qed

text \<open>
  On the example store: the empty range; all of the list 1, 2, 3 spliced to
  the end of the empty list with dummy 4; the range 2, 3 spliced before 7 in the other
  list; and the two moves within one list.
\<close>

theorem splice_moves_range_witness:
  "splice_l ex_heap 2 1 1 = ex_heap \<and>
   is_list (splice_l ex_heap 4 1 0) 0 [] \<and> empty_l (splice_l ex_heap 4 1 0) 0 \<and>
   is_list (splice_l ex_heap 4 1 0) 4 [1, 2, 3] \<and>
   contents (splice_l ex_heap 4 1 0) 4 = Some [1, 2, 3] \<and>
   is_list (splice_l ex_heap 7 2 0) 0 [1] \<and>
   is_list (splice_l ex_heap 7 2 0) 6 [2, 3, 7] \<and>
   is_list (splice_l ex_heap 0 1 2) 0 [2, 3, 1] \<and>
   is_list (splice_l ex_heap 1 3 0) 0 [3, 1, 2]"
proof -
  have a: "is_list ex_heap 0 ([] @ [1, 2, 3] @ [])" "is_list ex_heap 4 ([] @ [])"
    "set (0 # [] @ [1, 2, 3::nat] @ []) \<inter> set (4 # [] @ []) = {}"
    and b: "is_list ex_heap 0 ([1] @ [2, 3] @ [])" "is_list ex_heap 6 ([] @ [7])"
    "set (0 # [1] @ [2, 3::nat] @ []) \<inter> set (6 # [] @ [7]) = {}"
    and c: "is_list ex_heap 0 ([] @ [1] @ [2, 3] @ [])"
    and d: "is_list ex_heap 0 ([] @ [1, 2] @ [3] @ [])"
    by (simp_all add: is_list_def ring_def ex_heap_def)
  from splice_moves_range[where h=ex_heap and pos=2 and first=1]
  have 1: "splice_l ex_heap 2 1 1 = ex_heap" by simp
  from splice_moves_range[where h=ex_heap and ?d1.0=0 and pre="[]" and rng="[1, 2, 3]" and post="[]"
      and ?d2.0=4 and us="[]" and ws="[]"] a
  have 2: "is_list (splice_l ex_heap 4 1 0) 0 []" "is_list (splice_l ex_heap 4 1 0) 4 [1, 2, 3]"
    by simp_all
  from splice_moves_range[where h=ex_heap and ?d1.0=0 and pre="[1]" and rng="[2, 3]" and post="[]"
      and ?d2.0=6 and us="[]" and ws="[7]"] b
  have 3: "is_list (splice_l ex_heap 7 2 0) 0 [1]" "is_list (splice_l ex_heap 7 2 0) 6 [2, 3, 7]"
    by simp_all
  from splice_moves_range[where h=ex_heap and d=0 and pre="[]" and rng="[1]" and mid="[2, 3]"
      and ws="[]"] c
  have 4: "is_list (splice_l ex_heap 0 1 2) 0 [2, 3, 1]" by simp
  from splice_moves_range[where h=ex_heap and d=0 and us="[]" and ws="[1, 2]" and rng="[3]"
      and post="[]"] d
  have 5: "is_list (splice_l ex_heap 1 3 0) 0 [3, 1, 2]" by simp
  from 2(1) have 6: "empty_l (splice_l ex_heap 4 1 0) 0"
    by (simp add: is_list_def ring_def empty_l_def is_linked_def)
  from 1 2 3 4 5 6 is_list_contents[OF 2(2)] show ?thesis by simp
qed

text \<open>
  C4 as stated fails for a list with exactly one member: \<open>clear\<close> joins the two
  neighbours of the dummy, which are both that member, so the member ends self-looped and
  \<open>is_linked\<close> is false. In the example store the list with dummy 6 holds only 7.
\<close>

theorem clear_ring_counterexample:
  "is_list ex_heap 6 [7] \<and> \<not> empty_l ex_heap 6 \<and> \<not> is_linked (clear ex_heap 6) 7"
  by (simp add: is_list_def ring_def empty_l_def is_linked_def clear_def unlink_prev ex_heap_def)

text \<open>
  C4, amended. For a non-empty list \<open>xs\<close>, \<open>clear\<close> leaves the list empty (\<open>empty\<close> holds,
  \<open>size\<close> returns 0, \<open>begin() = end()\<close>) and writes only the dummy and its two neighbours; the
  former members form a ring without the dummy, in their order; a former member reports
  \<open>is_linked\<close> exactly when the list had at least two members; and inserting a former
  member \<open>x\<close> at any position of any list (the cleared one included) makes it a member
  there, the remaining former members staying a ring.
\<close>

theorem clear_detaches_dummy:
  assumes l: "is_list h d xs" and ne: "xs \<noteq> []"
  shows "is_list (clear h d) d [] \<and> empty_l (clear h d) d \<and> size_l (clear h d) d = Some 0 \<and>
         begin_l (clear h d) d = end_l (clear h d) d \<and>
         ring (clear h d) xs \<and>
         (\<forall>x \<in> set xs. is_linked (clear h d) x = (2 \<le> length xs)) \<and>
         (\<forall>n. n \<notin> {d, hd xs, last xs} \<longrightarrow>
              prev_p (clear h d) n = prev_p h n \<and> next_p (clear h d) n = next_p h n) \<and>
         (xs = ps @ x # qs \<and> is_list (clear h d) d2 (us @ ws) \<and>
          set xs \<inter> set (d2 # us @ ws) = {} \<longrightarrow>
            is_list (fst (insert_l (clear h d) (hd (ws @ [d2])) x)) d2 (us @ x # ws) \<and>
            (qs @ ps \<noteq> [] \<longrightarrow> ring (fst (insert_l (clear h d) (hd (ws @ [d2])) x)) (qs @ ps)))"
proof -
  let ?h = "clear h d"
  from l have r: "ring h (d # xs)" by (simp add: is_list_def)
  have e: "?h = unlink h d" by (simp add: clear_def)
  from unlink_ring[OF r] ne have l0: "is_list ?h d []" and rx: "ring ?h xs"
    by (simp_all add: e is_list_def)
  from ring_hd[OF r] ne have nd: "next_p h d = hd xs" and pd: "prev_p h d = last xs" by auto
  have 1: "empty_l ?h d" "begin_l ?h d = end_l ?h d"
    by (simp_all add: e empty_l_def is_linked_def begin_l_def end_l_def unlink_prev unlink_next)
  have 2: "\<forall>x \<in> set xs. is_linked ?h x = (2 \<le> length xs)"
    using ring_member_linked[OF rx] by blast
  have 3: "\<forall>n. n \<notin> {d, hd xs, last xs} \<longrightarrow> prev_p ?h n = prev_p h n \<and> next_p ?h n = next_p h n"
    by (simp add: e unlink_frame_fields nd pd)
  have 4: "xs = ps @ x # qs \<and> is_list ?h d2 (us @ ws) \<and> set xs \<inter> set (d2 # us @ ws) = {} \<longrightarrow>
            is_list (fst (insert_l ?h (hd (ws @ [d2])) x)) d2 (us @ x # ws) \<and>
            (qs @ ps \<noteq> [] \<longrightarrow> ring (fst (insert_l ?h (hd (ws @ [d2])) x)) (qs @ ps))"
  proof (intro impI, elim conjE)
    assume xs: "xs = ps @ x # qs" and l2: "is_list ?h d2 (us @ ws)"
      and dis: "set xs \<inter> set (d2 # us @ ws) = {}"
    from rx xs have rv: "ring ?h (x # qs @ ps)" using ring_rotate[of ?h ps "x # qs"] by simp
    have dis': "set (x # qs @ ps) \<inter> set (d2 # us @ ws) = {}" using dis xs by auto
    from insert_from_ring(1,3)[OF l2 rv dis']
    show "is_list (fst (insert_l ?h (hd (ws @ [d2])) x)) d2 (us @ x # ws) \<and>
            (qs @ ps \<noteq> [] \<longrightarrow> ring (fst (insert_l ?h (hd (ws @ [d2])) x)) (qs @ ps))"
      by blast
  qed
  from l0 is_list_size[OF l0] 1 rx 2 3 4 show ?thesis by simp
qed

text \<open>
  Witness for C4: clearing the list 1, 2, 3 of the example store, then inserting 2 into the
  cleared list, or before 7 in the other list.
\<close>

theorem clear_detaches_dummy_witness:
  "is_list (clear ex_heap 0) 0 [] \<and> size_l (clear ex_heap 0) 0 = Some 0 \<and>
   ring (clear ex_heap 0) [1, 2, 3] \<and> is_linked (clear ex_heap 0) 2 \<and>
   is_list (fst (insert_l (clear ex_heap 0) 0 2)) 0 [2] \<and>
   ring (fst (insert_l (clear ex_heap 0) 0 2)) [3, 1] \<and>
   is_list (fst (insert_l (clear ex_heap 0) 7 2)) 6 [2, 7]"
proof -
  have l: "is_list ex_heap 0 [1, 2, 3]" and ne: "[1, 2, 3::nat] \<noteq> []"
    and l6: "is_list ex_heap 6 [7]" and d6: "set [6, 7] \<inter> set (0 # [1, 2, 3::nat]) = {}"
    by (simp_all add: is_list_def ring_def ex_heap_def)
  note c = clear_detaches_dummy[OF l ne]
  from c[where ps="[]"] have 1: "is_list (clear ex_heap 0) 0 []" "size_l (clear ex_heap 0) 0 = Some 0"
    "ring (clear ex_heap 0) [1, 2, 3]" "is_linked (clear ex_heap 0) 2" by simp_all
  from c[where ps="[1]" and x=2 and qs="[3]" and ?d2.0=0 and us="[]" and ws="[]"] 1(1)
  have 2: "is_list (fst (insert_l (clear ex_heap 0) 0 2)) 0 [2]"
    "ring (fst (insert_l (clear ex_heap 0) 0 2)) [3, 1]" by simp_all
  have "ring (clear ex_heap 0) [6, 7]"
    using unlink_other_ring[OF l[unfolded is_list_def] l6[unfolded is_list_def] d6]
    by (simp add: clear_def)
  with c[where ps="[1]" and x=2 and qs="[3]" and ?d2.0=6 and us="[]" and ws="[7]"]
  have 3: "is_list (fst (insert_l (clear ex_heap 0) 7 2)) 6 [2, 7]" by (simp add: is_list_def)
  from 1 2 3 show ?thesis by simp
qed

text \<open>
  C5. A position of the list \<open>us @ ws\<close> with dummy \<open>d\<close> is written \<open>hd (ws @ [d])\<close>: the
  first node of \<open>ws\<close>, or \<open>end()\<close> when \<open>ws\<close> is empty. \<open>insert(pos, v)\<close> with \<open>pos\<close> at
  \<open>v\<close> itself changes nothing and returns \<open>pos\<close>. Otherwise, on any store, the iterator
  returned is \<open>v\<close>, and \<open>v\<close> and \<open>pos\<close> point to each other. With \<open>v\<close> on any other ring
  (unlinked when \<open>vs\<close> is empty), \<open>v\<close> leaves that ring, whose other nodes stay a ring, and
  the list becomes \<open>us @ v # ws\<close>; the iterator returned is \<open>v\<close>. With \<open>v\<close> a member of
  another list, that list loses exactly \<open>v\<close>, keeps its order, and its size drops by one.
  With \<open>v\<close> a member of the same list, \<open>v\<close> moves to the position.
\<close>

theorem insert_moves_element:
  "insert_l h v v = (h, v) \<and>
   (pos \<noteq> v \<longrightarrow>
      snd (insert_l h pos v) = v \<and>
      next_p (fst (insert_l h pos v)) v = pos \<and> prev_p (fst (insert_l h pos v)) pos = v) \<and>
   (is_list h d (us @ ws) \<and> ring h (v # vs) \<and> set (v # vs) \<inter> set (d # us @ ws) = {} \<longrightarrow>
      is_list (fst (insert_l h (hd (ws @ [d])) v)) d (us @ v # ws) \<and>
      snd (insert_l h (hd (ws @ [d])) v) = v \<and>
      (vs \<noteq> [] \<longrightarrow> ring (fst (insert_l h (hd (ws @ [d])) v)) vs)) \<and>
   (is_list h d (us @ ws) \<and> is_list h d1 (as @ v # bs) \<and>
    set (d1 # as @ v # bs) \<inter> set (d # us @ ws) = {} \<longrightarrow>
      is_list (fst (insert_l h (hd (ws @ [d])) v)) d (us @ v # ws) \<and>
      is_list (fst (insert_l h (hd (ws @ [d])) v)) d1 (as @ bs) \<and>
      contents (fst (insert_l h (hd (ws @ [d])) v)) d1 = Some (as @ bs) \<and>
      size_l (fst (insert_l h (hd (ws @ [d])) v)) d1 = Some (length (as @ v # bs) - 1) \<and>
      size_l (fst (insert_l h (hd (ws @ [d])) v)) d = Some (length (us @ ws) + 1)) \<and>
   (is_list h d (xs @ v # ys) \<and> xs @ ys = us @ ws \<longrightarrow>
      is_list (fst (insert_l h (hd (ws @ [d])) v)) d (us @ v # ws) \<and>
      snd (insert_l h (hd (ws @ [d])) v) = v)"
proof -
  let ?h = "fst (insert_l h (hd (ws @ [d])) v)"
  have 1: "insert_l h v v = (h, v)" by (simp add: insert_l_def)
  have 0: "pos \<noteq> v \<longrightarrow>
      snd (insert_l h pos v) = v \<and>
      next_p (fst (insert_l h pos v)) v = pos \<and> prev_p (fst (insert_l h pos v)) pos = v"
    by (simp add: insert_l_unfold link_next link_prev)
  have 2: "is_list ?h d (us @ v # ws) \<and> snd (insert_l h (hd (ws @ [d])) v) = v \<and>
           (vs \<noteq> [] \<longrightarrow> ring ?h vs)"
    if "is_list h d (us @ ws)" "ring h (v # vs)" "set (v # vs) \<inter> set (d # us @ ws) = {}"
    using insert_from_ring(1,2,3)[OF that] by blast
  have 3: "is_list ?h d (us @ v # ws) \<and> is_list ?h d1 (as @ bs) \<and>
           contents ?h d1 = Some (as @ bs) \<and>
           size_l ?h d1 = Some (length (as @ v # bs) - 1) \<and>
           size_l ?h d = Some (length (us @ ws) + 1)"
    if l: "is_list h d (us @ ws)" and l1: "is_list h d1 (as @ v # bs)"
      and dis: "set (d1 # as @ v # bs) \<inter> set (d # us @ ws) = {}"
  proof -
    from l1 have r: "ring h (v # bs @ d1 # as)" by (simp add: is_list_rotate)
    have dis': "set (v # bs @ d1 # as) \<inter> set (d # us @ ws) = {}" using dis by auto
    from insert_from_ring(1)[OF l r dis'] have a: "is_list ?h d (us @ v # ws)" .
    from insert_from_ring(3)[OF l r dis'] have "ring ?h (bs @ d1 # as)" by simp
    then have b: "is_list ?h d1 (as @ bs)"
      unfolding is_list_def using ring_rotate[of ?h bs "d1 # as"] by simp
    from a b is_list_contents[OF b] is_list_size[OF b] is_list_size[OF a]
    show ?thesis by simp
  qed
  have 4: "is_list ?h d (us @ v # ws) \<and> snd (insert_l h (hd (ws @ [d])) v) = v"
    if "is_list h d (xs @ v # ys)" "xs @ ys = us @ ws"
    using insert_within_list[OF that] by blast
  from 0 1 2 3 4 show ?thesis by blast
qed

text \<open>
  Witness for C5 on the example store: the no-op, an unlinked node into an empty list, a
  member of one list into another, and two moves within one list.
\<close>

theorem insert_moves_element_witness:
  "insert_l ex_heap 2 2 = (ex_heap, 2) \<and>
   next_p (fst (insert_l ex_heap 3 1)) 1 = 3 \<and> prev_p (fst (insert_l ex_heap 3 1)) 3 = 1 \<and>
   is_list (fst (insert_l ex_heap 4 5)) 4 [5] \<and>
   is_list (fst (insert_l ex_heap 7 2)) 6 [2, 7] \<and>
   is_list (fst (insert_l ex_heap 7 2)) 0 [1, 3] \<and>
   size_l (fst (insert_l ex_heap 7 2)) 0 = Some 2 \<and>
   snd (insert_l ex_heap 7 2) = 2 \<and>
   is_list (fst (insert_l ex_heap 1 3)) 0 [3, 1, 2] \<and>
   is_list (fst (insert_l ex_heap 0 1)) 0 [2, 3, 1]"
proof -
  have a: "is_list ex_heap 4 ([] @ [])" "ring ex_heap [5]"
    and b: "is_list ex_heap 6 ([] @ [7])" "is_list ex_heap 0 ([1] @ 2 # [3])"
    and c: "is_list ex_heap 0 ([1, 2] @ 3 # [])" "[1, 2] @ [] = [] @ [1, 2::nat]"
    and d: "is_list ex_heap 0 ([] @ 1 # [2, 3])" "[] @ [2, 3] = [2, 3::nat] @ []"
    by (simp_all add: is_list_def ring_def ex_heap_def)
  have dis: "set [5::nat] \<inter> set (4 # [] @ []) = {}"
    "set (0 # [1] @ 2 # [3::nat]) \<inter> set (6 # [] @ [7]) = {}" by simp_all
  from insert_moves_element[where h=ex_heap and v=2]
  have 1: "insert_l ex_heap 2 2 = (ex_heap, 2)" by simp
  have "(3::nat) \<noteq> 1" by simp
  with insert_moves_element[where h=ex_heap and pos=3 and v=1]
  have 7: "next_p (fst (insert_l ex_heap 3 1)) 1 = 3" "prev_p (fst (insert_l ex_heap 3 1)) 3 = 1"
    by blast+
  from insert_moves_element[where h=ex_heap and v=5 and d=4 and us="[]" and ws="[]" and vs="[]"] a dis
  have 2: "is_list (fst (insert_l ex_heap 4 5)) 4 [5]" by simp
  from insert_moves_element[where h=ex_heap and v=2 and d=6 and us="[]" and ws="[7]" and ?d1.0=0 and as="[1]" and bs="[3]"] b dis
  have 3: "is_list (fst (insert_l ex_heap 7 2)) 6 [2, 7]"
    "is_list (fst (insert_l ex_heap 7 2)) 0 [1, 3]"
    "size_l (fst (insert_l ex_heap 7 2)) 0 = Some 2" by simp_all
  have e: "ring ex_heap (2 # [3, 0, 1])" by (simp add: ring_def ex_heap_def)
  have dis3: "set (2 # [3, 0, 1::nat]) \<inter> set (6 # [] @ [7]) = {}" by simp
  from insert_moves_element[where h=ex_heap and v=2 and d=6 and us="[]" and ws="[7]" and vs="[3, 0, 1]"] b(1) e dis3
  have 4: "snd (insert_l ex_heap 7 2) = 2" by simp
  from insert_moves_element[where h=ex_heap and v=3 and d=0 and us="[]" and ws="[1, 2]" and xs="[1, 2]" and ys="[]"] c
  have 5: "is_list (fst (insert_l ex_heap 1 3)) 0 [3, 1, 2]" by simp
  from insert_moves_element[where h=ex_heap and v=1 and d=0 and us="[2, 3]" and ws="[]" and xs="[]" and ys="[2, 3]"] d
  have 6: "is_list (fst (insert_l ex_heap 0 1)) 0 [2, 3, 1]" by simp
  from 1 2 3 4 5 6 7 show ?thesis by simp
qed

text \<open>
  C6. Move assignment to itself changes nothing. For distinct nodes, the destination
  \<open>this\<close> first leaves its ring; then it stands where the source stood: the ring
  \<open>other # rs\<close> becomes \<open>this # rs\<close>, the former neighbours of the source point to the
  destination, and the source is self-looped. When the source was unlinked (\<open>rs\<close> empty)
  the destination ends unlinked. The same holds when both were on one ring, and for the move
  constructor, whose destination is a new object.
\<close>

theorem move_takes_position:
  "move_assign h this this = h \<and>
   (ring h (this # ts) \<and> ring h (other # rs) \<and> set (this # ts) \<inter> set (other # rs) = {} \<longrightarrow>
      ring (move_assign h this other) (this # rs) \<and>
      ring (move_assign h this other) [other] \<and>
      \<not> is_linked (move_assign h this other) other \<and>
      (ts \<noteq> [] \<longrightarrow> ring (move_assign h this other) ts) \<and>
      is_linked (move_assign h this other) this = is_linked h other \<and>
      (is_linked h other \<longrightarrow>
         prev_p (move_assign h this other) this = prev_p h other \<and>
         next_p (move_assign h this other) this = next_p h other \<and>
         next_p (move_assign h this other) (prev_p h other) = this \<and>
         prev_p (move_assign h this other) (next_p h other) = this)) \<and>
   (ring h (this # as @ other # bs) \<longrightarrow>
      ring (move_assign h this other) (this # bs @ as) \<and>
      ring (move_assign h this other) [other]) \<and>
   (ring h (other # rs) \<and> this \<notin> set (other # rs) \<longrightarrow>
      ring (move_ctor h this other) (this # rs) \<and>
      ring (move_ctor h this other) [other] \<and>
      is_linked (move_ctor h this other) this = is_linked h other \<and>
      \<not> is_linked (move_ctor h this other) other)"
proof -
  have 1: "move_assign h this this = h" by (simp add: move_assign_def)
  have 2: "ring (move_assign h this other) (this # rs) \<and>
      ring (move_assign h this other) [other] \<and>
      \<not> is_linked (move_assign h this other) other \<and>
      (ts \<noteq> [] \<longrightarrow> ring (move_assign h this other) ts) \<and>
      is_linked (move_assign h this other) this = is_linked h other \<and>
      (is_linked h other \<longrightarrow>
         prev_p (move_assign h this other) this = prev_p h other \<and>
         next_p (move_assign h this other) this = next_p h other \<and>
         next_p (move_assign h this other) (prev_p h other) = this \<and>
         prev_p (move_assign h this other) (next_p h other) = this)"
    if t: "ring h (this # ts)" and r: "ring h (other # rs)"
      and dis: "set (this # ts) \<inter> set (other # rs) = {}"
  proof -
    let ?h = "move_assign h this other"
    note m = move_assign_other_ring[OF t r dis]
    have lk: "is_linked ?h this = is_linked h other" "\<not> is_linked ?h other"
      using ring_is_linked[OF m(1)] ring_is_linked[OF r] ring_is_linked[OF m(2)] by simp_all
    have nb: "prev_p ?h this = prev_p h other \<and> next_p ?h this = next_p h other \<and>
         next_p ?h (prev_p h other) = this \<and> prev_p ?h (next_p h other) = this"
      if "is_linked h other"
    proof -
      from that ring_is_linked[OF r] have ne: "rs \<noteq> []" by simp
      with ring_hd[OF m(1)] ring_hd[OF r]
      have e: "prev_p ?h this = prev_p h other" "next_p ?h this = next_p h other" by simp_all
      from ring_inverse[OF m(1), of this] e show ?thesis by simp
    qed
    from m lk nb show ?thesis by blast
  qed
  have 3: "ring (move_assign h this other) (this # bs @ as) \<and> ring (move_assign h this other) [other]"
    if "ring h (this # as @ other # bs)"
    using move_assign_same_ring[OF that] by blast
  have 4: "ring (move_ctor h this other) (this # rs) \<and>
      ring (move_ctor h this other) [other] \<and>
      is_linked (move_ctor h this other) this = is_linked h other \<and>
      \<not> is_linked (move_ctor h this other) other"
    if r: "ring h (other # rs)" and nin: "this \<notin> set (other # rs)"
  proof -
    note m = move_ctor_ring[OF r nin]
    show ?thesis
      using m ring_is_linked[OF m(1)] ring_is_linked[OF r] ring_is_linked[OF m(2)] by simp
  qed
  from 1 2 3 4 show ?thesis by blast
qed

text \<open>
  Witness for C6 on the example store: self-move, an unlinked node taking the place of
  member 2, a member moved from an unlinked node, a move within one list, and the move
  constructor at the new address 8.
\<close>

theorem move_takes_position_witness:
  "move_assign ex_heap 2 2 = ex_heap \<and>
   is_list (move_assign ex_heap 5 2) 0 [1, 5, 3] \<and>
   \<not> is_linked (move_assign ex_heap 5 2) 2 \<and>
   next_p (move_assign ex_heap 5 2) 1 = 5 \<and>
   prev_p (move_assign ex_heap 5 2) 3 = 5 \<and>
   \<not> is_linked (move_assign ex_heap 2 5) 2 \<and>
   is_list (move_assign ex_heap 2 5) 0 [1, 3] \<and>
   is_list (move_assign ex_heap 1 3) 0 [2, 1] \<and>
   is_list (move_ctor ex_heap 8 2) 0 [1, 8, 3]"
proof -
  have a: "ring ex_heap (5 # [])" "ring ex_heap (2 # [3, 0, 1])"
    "set (5 # []) \<inter> set (2 # [3, 0, 1::nat]) = {}"
    "set (2 # [3, 0, 1::nat]) \<inter> set (5 # []) = {}"
    and b: "ring ex_heap (1 # [2] @ 3 # [0])" "8 \<notin> set (2 # [3, 0, 1::nat])"
    and l: "is_linked ex_heap 2" "prev_p ex_heap 2 = 1" "next_p ex_heap 2 = 3"
    by (simp_all add: ring_def ex_heap_def is_linked_def)
  from move_takes_position[where h=ex_heap and this=2] have 1: "move_assign ex_heap 2 2 = ex_heap" by simp
  from move_takes_position[where h=ex_heap and this=5 and ts="[]" and other=2 and rs="[3, 0, 1]"] a l
  have 2: "ring (move_assign ex_heap 5 2) ([5, 3] @ [0, 1])"
    "\<not> is_linked (move_assign ex_heap 5 2) 2"
    "next_p (move_assign ex_heap 5 2) 1 = 5" "prev_p (move_assign ex_heap 5 2) 3 = 5"
    by simp_all
  from move_takes_position[where h=ex_heap and this=2 and ts="[3, 0, 1]" and other=5 and rs="[]"] a
  have 3: "\<not> is_linked (move_assign ex_heap 2 5) 2" "ring (move_assign ex_heap 2 5) ([3] @ [0, 1])"
    by (simp_all add: ring_is_linked)
  from move_takes_position[where h=ex_heap and this=1 and other=3 and as="[2]" and bs="[0]"] b
  have 4: "ring (move_assign ex_heap 1 3) ([1] @ [0, 2])" by simp
  from move_takes_position[where h=ex_heap and this=8 and other=2 and rs="[3, 0, 1]"] a b
  have 5: "ring (move_ctor ex_heap 8 2) ([8, 3] @ [0, 1])" by simp
  from 1 2(2-) 3(1) ring_rotate[OF 2(1)] ring_rotate[OF 3(2)] ring_rotate[OF 4] ring_rotate[OF 5]
  show ?thesis by (simp add: is_list_def)
qed

text \<open>
  C7. The copy constructor makes the new object \<open>this\<close> a self-looped, unlinked node and
  writes no field of any other node. Copy assignment to itself changes nothing. Copy
  assignment from another node unlinks \<open>this\<close>: the other nodes of its ring stay a ring in
  the same cyclic order, a list that held \<open>this\<close> holds the others in their order, every
  ring that does not contain \<open>this\<close> keeps all its fields, and the fields of the source are
  written only when the source is a neighbour of \<open>this\<close>.
\<close>

theorem copy_never_links:
  "copy_assign h this this = h \<and>
   ring (copy_ctor h this other) [this] \<and>
   \<not> is_linked (copy_ctor h this other) this \<and>
   alive (copy_ctor h this other) = insert this (alive h) \<and>
   (\<forall>n. n \<noteq> this \<longrightarrow> prev_p (copy_ctor h this other) n = prev_p h n \<and>
                    next_p (copy_ctor h this other) n = next_p h n) \<and>
   (ring h (this # ts) \<and> this \<noteq> other \<longrightarrow>
      ring (copy_assign h this other) [this] \<and>
      \<not> is_linked (copy_assign h this other) this \<and>
      (ts \<noteq> [] \<longrightarrow> ring (copy_assign h this other) ts)) \<and>
   (ring h (this # ts) \<and> this \<noteq> other \<and> ring h cs \<and> set cs \<inter> set (this # ts) = {} \<longrightarrow>
      ring (copy_assign h this other) cs \<and>
      (\<forall>n \<in> set cs. prev_p (copy_assign h this other) n = prev_p h n \<and>
                      next_p (copy_assign h this other) n = next_p h n)) \<and>
   (is_list h d (as @ this # bs) \<and> this \<noteq> other \<longrightarrow>
      is_list (copy_assign h this other) d (as @ bs)) \<and>
   (this \<noteq> other \<and> other \<noteq> prev_p h this \<and> other \<noteq> next_p h this \<longrightarrow>
      prev_p (copy_assign h this other) other = prev_p h other \<and>
      next_p (copy_assign h this other) other = next_p h other)"
proof -
  let ?c = "copy_ctor h this other" and ?a = "copy_assign h this other"
  have 1: "copy_assign h this this = h" by (simp add: copy_assign_def)
  have 2: "ring ?c [this]" "\<not> is_linked ?c this" "alive ?c = insert this (alive h)"
    "\<forall>n. n \<noteq> this \<longrightarrow> prev_p ?c n = prev_p h n \<and> next_p ?c n = next_p h n"
    by (simp_all add: copy_ctor_def default_ctor_ring default_ctor_fields is_linked_def)
  have 3: "ring h (this # ts) \<and> this \<noteq> other \<longrightarrow>
      ring ?a [this] \<and> \<not> is_linked ?a this \<and> (ts \<noteq> [] \<longrightarrow> ring ?a ts)"
  proof (intro impI, elim conjE)
    assume t: "ring h (this # ts)" and ne: "this \<noteq> other"
    from unlink_ring[OF t] ne
    show "ring ?a [this] \<and> \<not> is_linked ?a this \<and> (ts \<noteq> [] \<longrightarrow> ring ?a ts)"
      by (simp add: copy_assign_def is_linked_def unlink_prev)
  qed
  have 4: "ring h (this # ts) \<and> this \<noteq> other \<and> ring h cs \<and> set cs \<inter> set (this # ts) = {} \<longrightarrow>
      ring ?a cs \<and> (\<forall>n \<in> set cs. prev_p ?a n = prev_p h n \<and> next_p ?a n = next_p h n)"
  proof (intro impI, elim conjE)
    assume t: "ring h (this # ts)" and ne: "this \<noteq> other" and c: "ring h cs"
      and dis: "set cs \<inter> set (this # ts) = {}"
    from ring_closed[OF t, of this]
    have in1: "next_p h this \<in> set (this # ts)" and in2: "prev_p h this \<in> set (this # ts)"
      by simp_all
    have e: "?a = unlink h this" using ne by (simp add: copy_assign_def)
    have "prev_p (unlink h this) n = prev_p h n \<and> next_p (unlink h this) n = next_p h n"
      if "n \<in> set cs" for n
    proof (rule unlink_frame_fields)
      from that dis in1 in2 show "n \<noteq> this" "n \<noteq> prev_p h this" "n \<noteq> next_p h this"
        by auto
    qed
    with unlink_other_ring[OF t c dis]
    show "ring ?a cs \<and> (\<forall>n \<in> set cs. prev_p ?a n = prev_p h n \<and> next_p ?a n = next_p h n)"
      unfolding e by blast
  qed
  have 5: "is_list h d (as @ this # bs) \<and> this \<noteq> other \<longrightarrow> is_list ?a d (as @ bs)"
  proof (intro impI, elim conjE)
    assume l: "is_list h d (as @ this # bs)" and ne: "this \<noteq> other"
    from unlink_member(1)[OF l] ne show "is_list ?a d (as @ bs)" by (simp add: copy_assign_def)
  qed
  have 6: "this \<noteq> other \<and> other \<noteq> prev_p h this \<and> other \<noteq> next_p h this \<longrightarrow>
      prev_p ?a other = prev_p h other \<and> next_p ?a other = next_p h other"
  proof (intro impI, elim conjE)
    assume ne: "this \<noteq> other" and "other \<noteq> prev_p h this" "other \<noteq> next_p h this"
    from unlink_frame_fields[OF ne[symmetric] this(2,3)] ne
    show "prev_p ?a other = prev_p h other \<and> next_p ?a other = next_p h other"
      by (simp add: copy_assign_def)
  qed
  from 1 2 3 4 5 6 show ?thesis by blast
qed

text \<open>
  Witness for C7 on the example store: self-assignment of the linked member 2, a copy
  constructed at the new address 8, and copy assignments with the source on another list,
  on the same list, and with an unlinked destination.
\<close>

theorem copy_never_links_witness:
  "copy_assign ex_heap 2 2 = ex_heap \<and>
   is_linked ex_heap 2 \<and>
   \<not> is_linked (copy_ctor ex_heap 8 2) 8 \<and>
   is_list (copy_ctor ex_heap 8 2) 0 [1, 2, 3] \<and>
   \<not> is_linked (copy_assign ex_heap 2 7) 2 \<and>
   is_list (copy_assign ex_heap 2 7) 6 [7] \<and>
   is_list (copy_assign ex_heap 2 7) 0 [1, 3] \<and>
   is_list (copy_assign ex_heap 2 3) 0 [1, 3] \<and>
   is_list (copy_assign ex_heap 5 2) 0 [1, 2, 3] \<and>
   prev_p (copy_assign ex_heap 1 3) 3 = prev_p ex_heap 3"
proof -
  have a: "ring ex_heap (2 # [3, 0, 1])" "ring ex_heap [6, 7]" "ring ex_heap (5 # [])"
    "ring ex_heap [0, 1, 2, 3]" "is_list ex_heap 0 ([1] @ 2 # [3])" "is_linked ex_heap 2"
    "prev_p ex_heap 1 = 0" "next_p ex_heap 1 = 2"
    by (simp_all add: is_list_def ring_def ex_heap_def is_linked_def)
  from copy_never_links[where h=ex_heap and this=2]
  have 1: "copy_assign ex_heap 2 2 = ex_heap" by simp
  from copy_never_links[where h=ex_heap and this=8 and other=2]
  have 2: "\<not> is_linked (copy_ctor ex_heap 8 2) 8"
    "\<forall>n. n \<noteq> 8 \<longrightarrow> prev_p (copy_ctor ex_heap 8 2) n = prev_p ex_heap n \<and>
                    next_p (copy_ctor ex_heap 8 2) n = next_p ex_heap n" by simp_all
  from ring_frame[OF a(4), of "copy_ctor ex_heap 8 2"] 2(2)
  have 3: "is_list (copy_ctor ex_heap 8 2) 0 [1, 2, 3]" by (simp add: is_list_def)
  from copy_never_links[where h=ex_heap and this=2 and other=7 and ts="[3, 0, 1]" and cs="[6, 7]"
      and d=0 and as="[1]" and bs="[3]"] a
  have 4: "\<not> is_linked (copy_assign ex_heap 2 7) 2" "is_list (copy_assign ex_heap 2 7) 6 [7]"
    "is_list (copy_assign ex_heap 2 7) 0 [1, 3]" by (simp_all add: is_list_def)
  from copy_never_links[where h=ex_heap and this=2 and other=3 and d=0 and as="[1]" and bs="[3]"] a
  have 5: "is_list (copy_assign ex_heap 2 3) 0 [1, 3]" by simp
  from copy_never_links[where h=ex_heap and this=5 and other=2 and ts="[]" and cs="[0, 1, 2, 3]"] a
  have 6: "is_list (copy_assign ex_heap 5 2) 0 [1, 2, 3]" by (simp add: is_list_def)
  from copy_never_links[where h=ex_heap and this=1 and other=3] a
  have 7: "prev_p (copy_assign ex_heap 1 3) 3 = prev_p ex_heap 3" by simp
  from 1 2(1) 3 4 5 6 7 a(6) show ?thesis by simp
qed

text \<open>
  C8. For a member \<open>x\<close> of the list \<open>as @ x # bs\<close> (so the iterator is not \<open>end()\<close>),
  \<open>erase\<close> leaves the list \<open>as @ bs\<close>, the order of the others preserved; \<open>x\<close> is
  self-looped and \<open>is_linked\<close> is false; the iterator returned is the member after
  \<open>x\<close>, or the dummy (\<open>end()\<close>) when \<open>x\<close> was last; iteration and \<open>size\<close> return and give the
  remaining members; only \<open>x\<close> and its two neighbours are written.
\<close>

theorem erase_member:
  assumes "is_list h d (as @ x # bs)"
  shows "is_list (fst (erase h x)) d (as @ bs) \<and>
         \<not> is_linked (fst (erase h x)) x \<and>
         next_p (fst (erase h x)) x = x \<and>
         snd (erase h x) = hd (bs @ [d]) \<and>
         contents (fst (erase h x)) d = Some (as @ bs) \<and>
         size_l (fst (erase h x)) d = Some (length (as @ x # bs) - 1) \<and>
         alive (fst (erase h x)) = alive h \<and>
         (\<forall>n. n \<notin> {x, prev_p h x, next_p h x} \<longrightarrow>
              prev_p (fst (erase h x)) n = prev_p h n \<and> next_p (fst (erase h x)) n = next_p h n)"
proof -
  have e: "fst (erase h x) = unlink h x" "snd (erase h x) = next_p h x"
    by (simp_all add: erase_def Let_def)
  from assms have r: "ring h (x # bs @ d # as)" by (simp add: is_list_rotate)
  from ring_hd[OF r] have nx: "next_p h x = hd (bs @ [d])" by (cases bs) auto
  note l' = unlink_member[OF assms]
  show ?thesis
    using l'(1) is_list_contents[OF l'(1)] is_list_size[OF l'(1)] nx
    by (simp add: e is_linked_def unlink_next unlink_prev unlink_alive)
qed

text \<open>Witness for C8: erasing 2 from the list 1, 2, 3 leaves 1, 3 with size 2.\<close>

theorem erase_member_witness:
  "is_list ex_heap 0 ([1] @ 2 # [3]) \<and>
   is_list (fst (erase ex_heap 2)) 0 [1, 3] \<and> \<not> is_linked (fst (erase ex_heap 2)) 2 \<and>
   snd (erase ex_heap 2) = 3 \<and> size_l (fst (erase ex_heap 2)) 0 = Some 2 \<and>
   snd (erase ex_heap 3) = 0"
proof -
  have a: "is_list ex_heap 0 ([1] @ 2 # [3])" and b: "is_list ex_heap 0 ([1, 2] @ 3 # [])"
    by (simp_all add: is_list_def ring_def ex_heap_def)
  from erase_member[OF a] erase_member[OF b] a show ?thesis by simp
qed

text \<open>
  C9. \<open>unlink\<close> is idempotent: on a self-looped node it changes nothing; after
  \<open>unlink\<close> the node is self-looped and \<open>is_linked\<close> is false; a second \<open>unlink\<close>
  changes nothing more.
\<close>

theorem unlink_idempotent:
  "(prev_p h p = p \<and> next_p h p = p \<longrightarrow> unlink h p = h) \<and>
   \<not> is_linked (unlink h p) p \<and>
   prev_p (unlink h p) p = p \<and> next_p (unlink h p) p = p \<and>
   unlink (unlink h p) p = unlink h p"
  by (simp add: unlink_self_loop is_linked_def unlink_next unlink_prev)

text \<open>Witness for C9: the unlinked node 5 and the member 2 of the example store.\<close>

theorem unlink_idempotent_witness:
  "unlink ex_heap 5 = ex_heap \<and> \<not> is_linked (unlink ex_heap 2) 2 \<and>
   unlink (unlink ex_heap 2) 2 = unlink ex_heap 2"
  using unlink_idempotent[of ex_heap 5] unlink_idempotent[of ex_heap 2]
  by (simp add: ex_heap_def)

text \<open>
  C10. On an empty list \<open>pop_front\<close> and \<open>pop_back\<close> both erase the dummy itself
  (\<open>begin()\<close> and \<open>std::prev(end())\<close> are the dummy), and the store does not change: the
  list stays empty, the dummy stays self-looped, no other node is written.
\<close>

theorem pop_empty_noop:
  "is_list h d [] \<Longrightarrow>
     empty_l h d \<and> begin_l h d = d \<and> decr h (end_l h d) = d \<and>
     erase h d = (h, d) \<and> pop_front h d = h \<and> pop_back h d = h"
  by (simp add: is_list_def ring_def empty_l_def is_linked_def begin_l_def end_l_def decr_def
      erase_def pop_front_def pop_back_def unlink_self_loop)

text \<open>Witness for C10: the empty list with dummy 4 of the example store.\<close>

theorem pop_empty_noop_witness:
  "is_list ex_heap 4 [] \<and> pop_front ex_heap 4 = ex_heap \<and> pop_back ex_heap 4 = ex_heap"
proof -
  have e: "is_list ex_heap 4 []" by (simp add: is_list_def ring_def ex_heap_def)
  from pop_empty_noop[OF e] e show ?thesis by simp
qed

end
